theory Spec2Isabelle
  imports Complex_Main "HOL-Library.Word"
begin

section \<open>Voltage recorder firmware (src/src/main.cpp)\<close>

text \<open>
  The sketch keeps all of its state in global variables and talks to four pieces of
  hardware: the serial port, the ADC, the DAC and the millisecond clock. The embedding
  keeps the globals in one record, which every function takes and returns; what the
  firmware prints and what it writes to the DAC and the LED are fields of the same
  record. Everything the hardware supplies during one pass of \<open>loop()\<close> (the pending
  serial line, the clock readings, the raw ADC codes, the bytes that arrive while the
  firmware polls the serial port) is the second record, \<open>env\<close>.

  \<open>delay\<close> and \<open>delayMicroseconds\<close> only let time pass; the time the firmware
  observes afterwards is a clock reading of \<open>env\<close>.
\<close>

subsection \<open>C arithmetic\<close>

type_synonym u32 = "32 word"
type_synonym u8 = "8 word"

text \<open>Integer division of C truncates towards zero.\<close>

definition cdiv :: "int \<Rightarrow> int \<Rightarrow> int" where
  "cdiv a b = sgn a * sgn b * (\<bar>a\<bar> div \<bar>b\<bar>)"

definition cmod :: "int \<Rightarrow> int \<Rightarrow> int" where
  "cmod a b = a - b * cdiv a b"

subsection \<open>IEEE 754 binary32 and binary64\<close>

text \<open>
  A \<open>float\<close> or \<open>double\<close> value is the real number it denotes. Every arithmetic
  operation and every conversion of IEEE 754 returns the exact result rounded to the
  nearest value of the target format, ties to the even significand: \<open>f32\<close> rounds to
  24 significant bits (\<open>float\<close>), \<open>f64\<close> to 53 (\<open>double\<close>). Infinities and NaN do
  not occur: every quantity of the sketch is bounded by a 32-bit integer.
\<close>

fun bitlen_nat :: "nat \<Rightarrow> nat" where
  "bitlen_nat n = (if n = 0 then 0 else Suc (bitlen_nat (n div 2)))"

declare bitlen_nat.simps [simp del]

definition pow2 :: "int \<Rightarrow> real" where
  "pow2 e = (if 0 \<le> e then 2 ^ nat e else 1 / 2 ^ nat (- e))"

text \<open>\<open>ilog2 x\<close> is the binary exponent of a positive \<open>x\<close>: \<open>2 ^ ilog2 x \<le> x < 2 ^ (ilog2 x + 1)\<close>.\<close>

definition ilog2 :: "real \<Rightarrow> int" where
  "ilog2 x = (if 1 \<le> x then int (bitlen_nat (nat \<lfloor>x\<rfloor>)) - 1
              else - int (bitlen_nat (nat (\<lceil>1 / x\<rceil> - 1))))"

definition round_even :: "real \<Rightarrow> int" where
  "round_even x =
     (let f = \<lfloor>x\<rfloor>; r = x - of_int f
      in if r < 1 / 2 then f else if 1 / 2 < r then f + 1
         else if even f then f else f + 1)"

definition ieee_round :: "nat \<Rightarrow> int \<Rightarrow> real \<Rightarrow> real" where
  "ieee_round p emin x =
     (if x = 0 then 0
      else let e = max (ilog2 \<bar>x\<bar>) emin; u = pow2 (e - int p + 1)
           in of_int (round_even (x / u)) * u)"

definition f32 :: "real \<Rightarrow> real" where
  "f32 = ieee_round 24 (- 126)"

definition f64 :: "real \<Rightarrow> real" where
  "f64 = ieee_round 53 (- 1022)"

text \<open>The cast \<open>(uint8_t) x\<close> of a \<open>double\<close> drops the fraction.\<close>

definition to_u8 :: "real \<Rightarrow> u8" where
  "to_u8 x = word_of_int (if 0 \<le> x then \<lfloor>x\<rfloor> else \<lceil>x\<rceil>)"

subsection \<open>Arduino \<open>String\<close>\<close>

definition isspace :: "char \<Rightarrow> bool" where
  "isspace c = (let n = (of_char c :: nat) in n = 32 \<or> (9 \<le> n \<and> n \<le> 13))"

definition isdigit :: "char \<Rightarrow> bool" where
  "isdigit c = (let n = (of_char c :: nat) in 48 \<le> n \<and> n \<le> 57)"

definition tolower :: "char \<Rightarrow> char" where
  "tolower c = (let n = (of_char c :: nat) in if 65 \<le> n \<and> n \<le> 90 then char_of (n + 32) else c)"

definition trim :: "string \<Rightarrow> string" where
  "trim s = rev (dropWhile isspace (rev (dropWhile isspace s)))"

definition toLowerCase :: "string \<Rightarrow> string" where
  "toLowerCase s = map tolower s"

definition startsWith :: "string \<Rightarrow> string \<Rightarrow> bool" where
  "startsWith s p = (take (length p) s = p)"

definition substring :: "string \<Rightarrow> nat \<Rightarrow> string" where
  "substring s n = drop n s"

text \<open>
  \<open>String::toInt\<close> is \<open>atol\<close>: white space is skipped, a sign is read, then decimal
  digits up to the first other character; without a digit the result is 0. A value
  beyond \<open>long\<close> (32 bits on this target) saturates, as \<open>strtol\<close> does.
\<close>

fun digits :: "string \<Rightarrow> int \<Rightarrow> int" where
  "digits [] acc = acc"
| "digits (c # cs) acc =
     (if isdigit c then digits cs (acc * 10 + (int (of_char c) - 48)) else acc)"

definition saturate_long :: "int \<Rightarrow> int" where
  "saturate_long v = max (- 2147483648) (min 2147483647 v)"

definition toInt :: "string \<Rightarrow> int" where
  "toInt s =
     (case dropWhile isspace s of
        [] \<Rightarrow> 0
      | c # cs \<Rightarrow>
          if c = CHR ''-'' then saturate_long (- digits cs 0)
          else if c = CHR ''+'' then saturate_long (digits cs 0)
          else saturate_long (digits (c # cs) 0))"

subsection \<open>Serial output\<close>

text \<open>One constructor for each \<open>Serial.println\<close> or \<open>Serial.printf\<close> of the sketch, with the values it prints.\<close>

datatype cal_value = EfuseVref | EfuseTwoPoint | DefaultVref

datatype msg =
    Banner | VersionLine | Initializing | AdcUsing cal_value | DacInitialized
  | AutoCalibrating | SetupComplete
  | RecordedProgress int | BufferFull
  | MakeSureGrounded | OffsetCalibrated real
  | BufferCleared | RateSet int | RateWarning | InvalidRate
  | SamplesSet int | InvalidSamples | CurrentVoltage real | UnknownCommand
  | AlreadyRecording | StartedRecording int | TypeStop
  | NotRecording | RecordingStopped int | ActualDuration real | TypeShow
  | NoDataRecorded | PrintingSamples int | TableHeader | TableRule
  | Row int real real | PressAnyKey | TotalSamples int
  | NoDataToReplay | Replaying int | DacNote | TypeAnyKey
  | SampleDac int real u8 | ReplayCompleted | Durations real real
  | ReplayRateWarning | ExceededStableRate
  | StatusHeader | StatusRecording bool | SamplesInBuffer int int | StatusRate int
  | MemoryUsage real | RecordedRange real real real
  | HelpLine nat

subsection \<open>Globals and hardware\<close>

definition MAX_SAMPLES :: int where
  "MAX_SAMPLES = 5000"

definition DEFAULT_SAMPLE_RATE :: int where
  "DEFAULT_SAMPLE_RATE = 100"

record recorder =
  recording :: bool
  voltageBuffer :: "real list"
  sampleCount :: int
  sampleRate :: int
  lastSampleTime :: u32
  recordingStartTime :: u32
  recordingEndTime :: u32
  adcOffset :: real
  ADC_SAMPLES :: int
  serialOut :: "msg list"
  dacOut :: "u8 list"
  led :: bool

text \<open>
  What the hardware supplies during one pass of \<open>loop()\<close>:
  \<^item> \<open>serialLine\<close>: the line \<open>readStringUntil\<close> returns, \<open>None\<close> when \<open>Serial.available()\<close> is 0;
  \<^item> \<open>rawToVoltage\<close>: \<open>esp_adc_cal_raw_to_voltage\<close> with the characteristics of this chip;
  \<^item> \<open>adcCmd\<close>, \<open>adcTick\<close>: the results of the successive \<open>adc1_get_raw\<close> calls of the
    command and of the sampling step;
  \<^item> \<open>millisCmd\<close>, \<open>millisReplayEnd\<close>, \<open>millisTick\<close>, \<open>millisFull\<close>: \<open>millis()\<close> as read by
    the command (start, stop, start of replay), at the end of a replay, by \<open>loop\<close>, and by
    the \<open>stopRecording\<close> that a full buffer calls;
  \<^item> \<open>pageAvail i n\<close>: whether \<open>Serial.available()\<close> holds at poll \<open>n\<close> of the pause
    that \<open>printData\<close> makes after row \<open>i\<close>;
  \<^item> \<open>replayAvail i\<close>: whether \<open>Serial.available()\<close> holds at the loop test of sample \<open>i\<close>
    of a replay;
  \<^item> \<open>calValue\<close>: what \<open>esp_adc_cal_characterize\<close> returns in \<open>setupADC\<close>.
\<close>

record env =
  serialLine :: "string option"
  rawToVoltage :: "u32 \<Rightarrow> u32"
  adcCmd :: "nat \<Rightarrow> int"
  adcTick :: "nat \<Rightarrow> int"
  millisCmd :: u32
  millisReplayEnd :: u32
  millisTick :: u32
  millisFull :: u32
  pageAvail :: "nat \<Rightarrow> nat \<Rightarrow> bool"
  replayAvail :: "nat \<Rightarrow> bool"
  calValue :: cal_value

text \<open>A call either returns, or stays for ever in the loop that waits for a key.\<close>

datatype 'a outcome = Returned 'a | Blocked 'a

fun final :: "'a outcome \<Rightarrow> 'a" where
  "final (Returned s) = s"
| "final (Blocked s) = s"

definition println :: "msg \<Rightarrow> recorder \<Rightarrow> recorder" where
  "println m s = s\<lparr>serialOut := serialOut s @ [m]\<rparr>"

definition initial :: recorder where
  "initial = \<lparr>recording = False, voltageBuffer = replicate (nat MAX_SAMPLES) 0,
     sampleCount = 0, sampleRate = DEFAULT_SAMPLE_RATE, lastSampleTime = 0,
     recordingStartTime = 0, recordingEndTime = 0, adcOffset = 0, ADC_SAMPLES = 64,
     serialOut = [], dacOut = [], led = False\<rparr>"

subsection \<open>Reading the ADC\<close>

definition adcAverage :: "(nat \<Rightarrow> int) \<Rightarrow> int \<Rightarrow> u32" where
  "adcAverage adc n =
     (let total = fold (\<lambda>i t. t + word_of_int (adc i)) [0 ..< nat n] (0 :: u32)
      in total div word_of_int n)"

definition readVoltageHighPrecision :: "env \<Rightarrow> (nat \<Rightarrow> int) \<Rightarrow> recorder \<Rightarrow> real" where
  "readVoltageHighPrecision e adc s =
     (let average = adcAverage adc (ADC_SAMPLES s);
          voltage_mv = rawToVoltage e average;
          voltage = f32 (f64 (real (unat voltage_mv) / 1000));
          voltage = f32 (voltage - adcOffset s)
      in if voltage < 0 then 0 else voltage)"

definition calibrateADCOffset :: "env \<Rightarrow> (nat \<Rightarrow> int) \<Rightarrow> recorder \<Rightarrow> recorder" where
  "calibrateADCOffset e adc s =
     (let s = println MakeSureGrounded s;
          average = adcAverage adc (ADC_SAMPLES s);
          voltage_mv = rawToVoltage e average;
          s = s\<lparr>adcOffset := f32 (f64 (real (unat voltage_mv) / 1000))\<rparr>
      in println (OffsetCalibrated (adcOffset s)) s)"

subsection \<open>Starting and stopping\<close>

definition startRecording :: "u32 \<Rightarrow> recorder \<Rightarrow> recorder" where
  "startRecording now s =
     (if recording s then println AlreadyRecording s
      else let s = s\<lparr>sampleCount := 0\<rparr>;
               s = s\<lparr>recording := True\<rparr>;
               s = s\<lparr>lastSampleTime := now\<rparr>;
               s = s\<lparr>recordingStartTime := lastSampleTime s\<rparr>;
               s = println (StartedRecording (sampleRate s)) s
           in println TypeStop s)"

definition stopRecording :: "u32 \<Rightarrow> recorder \<Rightarrow> recorder" where
  "stopRecording now s =
     (if \<not> recording s then println NotRecording s
      else let s = s\<lparr>recording := False\<rparr>;
               s = s\<lparr>led := True\<rparr>;
               s = s\<lparr>recordingEndTime := now\<rparr>;
               s = println (RecordingStopped (sampleCount s)) s;
               s = println (ActualDuration
                     (f64 (real (unat (recordingEndTime s - recordingStartTime s)) / 1000))) s
           in println TypeShow s)"


subsection \<open>Printing the buffer\<close>

text \<open>\<open>while (!Serial.available()) delay(10);\<close> returns only when a byte arrives.\<close>

partial_function (option) awaitByte :: "(nat \<Rightarrow> bool) \<Rightarrow> nat \<Rightarrow> nat option" where
  "awaitByte avail n = (if avail n then Some n else awaitByte avail (Suc n))"

text \<open>The time column of row \<open>i\<close>, \<open>(float)i * 1000.0 / sampleRate\<close> stored in a \<open>float\<close>, and the test for a pause after row \<open>i\<close>.\<close>

definition rowTimeMs :: "int \<Rightarrow> int \<Rightarrow> real" where
  "rowTimeMs rate i = f32 (f64 (f64 (f32 (of_int i) * 1000) / of_int rate))"

definition pauseAfter :: "int \<Rightarrow> int \<Rightarrow> bool" where
  "pauseAfter n i \<longleftrightarrow> cmod (i + 1) 20 = 0 \<and> i < n - 1"

function printRows :: "env \<Rightarrow> int \<Rightarrow> recorder \<Rightarrow> recorder outcome" where
  "printRows e i s =
     (if i < sampleCount s then
        let timeMs = rowTimeMs (sampleRate s) i;
            s1 = println (Row i (voltageBuffer s ! nat i) timeMs) s
        in if pauseAfter (sampleCount s) i then
             (case awaitByte (pageAvail e (nat i)) 0 of
                None \<Rightarrow> Blocked (println PressAnyKey s1)
              | Some n \<Rightarrow> printRows e (i + 1) (println PressAnyKey s1))
           else printRows e (i + 1) s1
      else Returned s)"
  by pat_completeness auto
termination
  by (relation "measure (\<lambda>(e, i, s). nat (sampleCount s - i))") (auto simp: println_def)

declare printRows.simps [simp del]

definition printData :: "env \<Rightarrow> recorder \<Rightarrow> recorder outcome" where
  "printData e s =
     (if sampleCount s = 0 then Returned (println NoDataRecorded s)
      else let s = println (PrintingSamples (sampleCount s)) s;
               s = println TableHeader s;
               s = println TableRule s
           in case printRows e 0 s of
                Blocked s \<Rightarrow> Blocked s
              | Returned s \<Rightarrow>
                  Returned (println (TotalSamples (sampleCount s)) (println TableRule s)))"

subsection \<open>Replay\<close>

text \<open>
  The two clamps and the conversion to the 8-bit DAC code, as the loop body computes them.
  The constants 3.3, 255.0 and 0.1 are \<open>double\<close>; \<open>voltage\<close> is a \<open>float\<close>.

  The loop also waits until \<open>micros()\<close> reaches the time of the next sample, and after the
  loop the pending serial input is read and dropped; neither changes a global, the DAC or
  the output, and the clock reading after the loop is \<open>millisReplayEnd\<close>.
\<close>

definition clampVoltage :: "real \<Rightarrow> real" where
  "clampVoltage v =
     (let voltage = (if v > f64 (33 / 10) then f32 (f64 (33 / 10)) else v)
      in if voltage < 0 then 0 else voltage)"

definition dacValue :: "real \<Rightarrow> u8" where
  "dacValue voltage = to_u8 (f64 (f64 (voltage * 255) / f64 (33 / 10)))"

function replayLoop :: "env \<Rightarrow> int \<Rightarrow> real \<Rightarrow> recorder \<Rightarrow> recorder" where
  "replayLoop e i lastPrintedVoltage s =
     (if i < sampleCount s \<and> \<not> replayAvail e (nat i) then
        let voltage = clampVoltage (voltageBuffer s ! nat i);
            s1 = s\<lparr>dacOut := dacOut s @ [dacValue voltage]\<rparr>
        in if cmod i 50 = 0 \<or> \<bar>f32 (voltage - lastPrintedVoltage)\<bar> > f64 (1 / 10)
           then replayLoop e (i + 1) voltage (println (SampleDac i voltage (dacValue voltage)) s1)
           else replayLoop e (i + 1) lastPrintedVoltage s1
      else s)"
  by pat_completeness auto
termination
  by (relation "measure (\<lambda>(e, i, l, s). nat (sampleCount s - i))") (auto simp: println_def)

declare replayLoop.simps [simp del]

definition expectedDuration :: "recorder \<Rightarrow> real" where
  "expectedDuration s =
     (if recordingEndTime s > recordingStartTime s
      then f32 (f64 (real (unat (recordingEndTime s - recordingStartTime s)) / 1000))
      else f32 (f32 (of_int (sampleCount s)) / f32 (of_int (sampleRate s))))"

definition replayVoltages :: "env \<Rightarrow> recorder \<Rightarrow> recorder" where
  "replayVoltages e s =
     (if sampleCount s = 0 then println NoDataToReplay s
      else let s = println (Replaying (sampleCount s)) s;
               s = println DacNote s;
               s = println TypeAnyKey s;
               replayStart = millisCmd e;
               s = replayLoop e 0 (- 1) s;
               replayEnd = millisReplayEnd e;
               s = s\<lparr>dacOut := dacOut s @ [0]\<rparr>;
               s = println ReplayCompleted s;
               replaySec = f32 (f64 (real (unat (replayEnd - replayStart)) / 1000));
               expectedSec = expectedDuration s;
               s = println (Durations expectedSec replaySec) s;
               s = (if sampleRate s > 200 then println ReplayRateWarning s else s)
           in if \<bar>f32 (replaySec - expectedSec)\<bar> > f64 (f64 (1 / 5) * expectedSec)
              then println ExceededStableRate s else s)"

subsection \<open>Status and help\<close>

definition statsStep :: "real list \<Rightarrow> nat \<Rightarrow> real \<times> real \<times> real \<Rightarrow> real \<times> real \<times> real" where
  "statsStep buf i = (\<lambda>(minV, maxV, avgV).
     (if buf ! i < minV then buf ! i else minV,
      if buf ! i > maxV then buf ! i else maxV,
      f32 (avgV + buf ! i)))"

definition bufferStats :: "recorder \<Rightarrow> real \<times> real \<times> real" where
  "bufferStats s =
     (case fold (statsStep (voltageBuffer s)) [0 ..< nat (sampleCount s)]
             (voltageBuffer s ! 0, voltageBuffer s ! 0, 0) of
        (minV, maxV, avgV) \<Rightarrow> (minV, maxV, f32 (avgV / f32 (of_int (sampleCount s)))))"

definition printStatus :: "env \<Rightarrow> recorder \<Rightarrow> recorder" where
  "printStatus e s =
     (let s = println StatusHeader s;
          s = println (StatusRecording (recording s)) s;
          s = println (SamplesInBuffer (sampleCount s) MAX_SAMPLES) s;
          s = println (StatusRate (sampleRate s)) s;
          s = (if sampleRate s > 200 then println RateWarning s else s);
          s = println (MemoryUsage (f64 (f32 (of_int (sampleCount s * 4)) / 1024))) s;
          currentVoltage = readVoltageHighPrecision e (adcCmd e) s;
          s = println (CurrentVoltage currentVoltage) s
      in if sampleCount s > 0 then
           (case bufferStats s of
              (minV, maxV, avgV) \<Rightarrow>
                println (ActualDuration
                    (if recordingEndTime s > recordingStartTime s
                     then f64 (real (unat (recordingEndTime s - recordingStartTime s)) / 1000)
                     else 0))
                  (println (RecordedRange minV maxV avgV) s))
         else s)"

definition printHelp :: "recorder \<Rightarrow> recorder" where
  "printHelp s = fold println (map HelpLine [0 ..< 16]) s"

subsection \<open>Commands\<close>

definition processSerialCommands :: "env \<Rightarrow> recorder \<Rightarrow> recorder outcome" where
  "processSerialCommands e s =
     (case serialLine e of
        None \<Rightarrow> Returned s
      | Some l \<Rightarrow>
          let command = toLowerCase (trim l)
          in if startsWith command ''start'' \<or> startsWith command ''begin''
             then Returned (startRecording (millisCmd e) s)
             else if startsWith command ''stop''
             then Returned (stopRecording (millisCmd e) s)
             else if startsWith command ''show'' \<or> startsWith command ''print''
             then printData e s
             else if startsWith command ''replay'' \<or> startsWith command ''replicate''
             then Returned (replayVoltages e s)
             else if startsWith command ''status''
             then Returned (printStatus e s)
             else if startsWith command ''clear''
             then Returned (println BufferCleared (s\<lparr>sampleCount := 0\<rparr>))
             else if startsWith command ''rate''
             then (let newRate = toInt (substring command 5)
                   in if newRate > 0 \<and> newRate \<le> 10000
                      then let s = s\<lparr>sampleRate := newRate\<rparr>;
                               s = println (RateSet (sampleRate s)) s
                           in Returned (if sampleRate s > 200 then println RateWarning s else s)
                      else Returned (println InvalidRate s))
             else if startsWith command ''samples''
             then (let newSamples = toInt (substring command 7)
                   in if newSamples \<ge> 1 \<and> newSamples \<le> 1024
                      then let s = s\<lparr>ADC_SAMPLES := newSamples\<rparr>
                           in Returned (println (SamplesSet (ADC_SAMPLES s)) s)
                      else Returned (println InvalidSamples s))
             else if startsWith command ''read''
             then Returned (println (CurrentVoltage (readVoltageHighPrecision e (adcCmd e) s)) s)
             else if startsWith command ''calibrate''
             then Returned (calibrateADCOffset e (adcCmd e) s)
             else if startsWith command ''help''
             then Returned (printHelp s)
             else Returned (println UnknownCommand s))"

subsection \<open>The main loop\<close>

text \<open>The sampling step of \<open>loop()\<close>, after the command has been processed.\<close>

definition sampleStep :: "env \<Rightarrow> recorder \<Rightarrow> recorder" where
  "sampleStep e s =
     (if recording s \<and> sampleCount s < MAX_SAMPLES then
        let currentTime = millisTick e;
            s = (if sampleCount s = 0 then s\<lparr>recordingStartTime := currentTime\<rparr> else s)
        in if currentTime - lastSampleTime s \<ge> word_of_int (cdiv 1000 (sampleRate s)) then
             let s = s\<lparr>voltageBuffer := (voltageBuffer s)
                         [nat (sampleCount s) := readVoltageHighPrecision e (adcTick e) s]\<rparr>;
                 s = s\<lparr>sampleCount := sampleCount s + 1\<rparr>;
                 s = s\<lparr>lastSampleTime := currentTime\<rparr>;
                 s = s\<lparr>led := (cmod (sampleCount s) 100 < 50)\<rparr>;
                 s = (if cmod (sampleCount s) 100 = 0
                      then println (RecordedProgress (sampleCount s)) s else s)
             in if sampleCount s \<ge> MAX_SAMPLES
                then stopRecording (millisFull e) (println BufferFull s)
                else s
           else s
      else s)"

definition loop :: "env \<Rightarrow> recorder \<Rightarrow> recorder outcome" where
  "loop e s =
     (case processSerialCommands e s of
        Blocked s \<Rightarrow> Blocked s
      | Returned s \<Rightarrow> Returned (sampleStep e s))"

definition setup_sketch :: "env \<Rightarrow> recorder \<Rightarrow> recorder" where
  "setup_sketch e s =
     (let s = s\<lparr>led := False\<rparr>;
          s = println Banner s;
          s = println VersionLine s;
          s = println Initializing s;
          s = println (AdcUsing (calValue e)) s;
          s = s\<lparr>dacOut := dacOut s @ [0]\<rparr>;
          s = println DacInitialized s;
          s = println AutoCalibrating s;
          s = calibrateADCOffset e (adcCmd e) s;
          s = println SetupComplete s;
          s = printHelp s
      in s\<lparr>led := True\<rparr>)"

text \<open>The firmware after \<open>setup()\<close> and one pass of \<open>loop()\<close> for each element of the list.\<close>

fun run :: "env list \<Rightarrow> recorder \<Rightarrow> recorder outcome" where
  "run [] s = Returned s"
| "run (e # es) s =
     (case loop e s of
        Blocked s' \<Rightarrow> Blocked s'
      | Returned s' \<Rightarrow> run es s')"

text \<open>A pass of \<open>loop()\<close> during which the hardware supplies nothing: no serial input, time 0, ADC code 0.\<close>

definition quiet :: env where
  "quiet = \<lparr>serialLine = None, rawToVoltage = (\<lambda>r. r), adcCmd = (\<lambda>i. 0), adcTick = (\<lambda>i. 0),
     millisCmd = 0, millisReplayEnd = 0, millisTick = 0, millisFull = 0,
     pageAvail = (\<lambda>i n. False), replayAvail = (\<lambda>i. False), calValue = DefaultVref\<rparr>"

text \<open>The program's globals without what it has printed or written to the DAC and the LED.\<close>

definition core :: "recorder \<Rightarrow> bool \<times> real list \<times> int \<times> int \<times> u32 \<times> u32 \<times> u32 \<times> real \<times> int" where
  "core s = (recording s, voltageBuffer s, sampleCount s, sampleRate s, lastSampleTime s,
     recordingStartTime s, recordingEndTime s, adcOffset s, ADC_SAMPLES s)"

text \<open>
  What holds of the globals in every state the firmware reaches: the occupancy is within
  the capacity, the buffer has its declared size and holds no negative value, and the two
  settings are within the bounds their commands check.
\<close>

definition wellformed :: "recorder \<Rightarrow> bool" where
  "wellformed s \<longleftrightarrow>
     0 \<le> sampleCount s \<and> sampleCount s \<le> MAX_SAMPLES
     \<and> length (voltageBuffer s) = nat MAX_SAMPLES
     \<and> (\<forall>v \<in> set (voltageBuffer s). 0 \<le> v)
     \<and> 1 \<le> sampleRate s \<and> sampleRate s \<le> 10000
     \<and> 1 \<le> ADC_SAMPLES s \<and> ADC_SAMPLES s \<le> 1024"

text \<open>
  The lines \<open>printData\<close> is expected to print for the rows \<open>i, \<dots>, m - 1\<close> of a buffer
  with \<open>n\<close> samples: one row for each sample, and the prompt after each row that is
  followed by a pause.
\<close>

definition tableBody :: "real list \<Rightarrow> int \<Rightarrow> int \<Rightarrow> nat \<Rightarrow> nat \<Rightarrow> msg list" where
  "tableBody buf rate n i m =
     concat (map (\<lambda>j. Row (int j) (buf ! j) (rowTimeMs rate (int j))
                       # (if pauseAfter n (int j) then [PressAnyKey] else []))
                 [i ..< m])"

text \<open>
  An argument in which \<open>toInt\<close> finds no number: after the white space, and after a
  sign if there is one, the next character is not a digit.
\<close>

definition noLeadingInteger :: "string \<Rightarrow> bool" where
  "noLeadingInteger a =
     (case dropWhile isspace a of
        [] \<Rightarrow> True
      | c # cs \<Rightarrow>
          if c = CHR ''-'' \<or> c = CHR ''+''
          then (case cs of [] \<Rightarrow> True | d # ds \<Rightarrow> \<not> isdigit d)
          else \<not> isdigit c)"

section \<open>Properties\<close>

subsection \<open>Output and the command dispatcher\<close>

lemma println_fields [simp]:
  "recording (println m s) = recording s"
  "voltageBuffer (println m s) = voltageBuffer s"
  "sampleCount (println m s) = sampleCount s"
  "sampleRate (println m s) = sampleRate s"
  "lastSampleTime (println m s) = lastSampleTime s"
  "recordingStartTime (println m s) = recordingStartTime s"
  "recordingEndTime (println m s) = recordingEndTime s"
  "adcOffset (println m s) = adcOffset s"
  "ADC_SAMPLES (println m s) = ADC_SAMPLES s"
  "dacOut (println m s) = dacOut s"
  "led (println m s) = led s"
  "serialOut (println m s) = serialOut s @ [m]"
  by (simp_all add: println_def)

lemma startsWith_append: "startsWith s p \<longleftrightarrow> (\<exists>t. s = p @ t)"
  unfolding startsWith_def
  by (metis append_eq_conv_conj append_take_drop_id)

lemma startsWith_Nil [simp]: "startsWith s []"
  by (simp add: startsWith_def)

lemma startsWith_Cons_Cons [simp]: "startsWith (y # t) (x # p) \<longleftrightarrow> y = x \<and> startsWith t p"
  by (auto simp: startsWith_def)

lemma startsWith_Nil_Cons [simp]: "\<not> startsWith [] (x # p)"
  by (simp add: startsWith_def)

lemma cmd_start:
  assumes "serialLine e = Some l"
    and "startsWith (toLowerCase (trim l)) ''start'' \<or> startsWith (toLowerCase (trim l)) ''begin''"
  shows "processSerialCommands e s = Returned (startRecording (millisCmd e) s)"
  using assms by (simp add: processSerialCommands_def)

lemma cmd_stop:
  assumes "serialLine e = Some l" and "startsWith (toLowerCase (trim l)) ''stop''"
  shows "processSerialCommands e s = Returned (stopRecording (millisCmd e) s)"
proof -
  from assms(2) obtain t where "toLowerCase (trim l) = ''stop'' @ t"
    by (auto simp: startsWith_append)
  with assms(1) show ?thesis
    by (simp add: processSerialCommands_def)
qed

lemma cmd_show:
  assumes "serialLine e = Some l"
    and "startsWith (toLowerCase (trim l)) ''show'' \<or> startsWith (toLowerCase (trim l)) ''print''"
  shows "processSerialCommands e s = printData e s"
proof -
  from assms(2) obtain t where "toLowerCase (trim l) = ''show'' @ t \<or> toLowerCase (trim l) = ''print'' @ t"
    by (auto simp: startsWith_append)
  with assms(1) show ?thesis
    by (auto simp: processSerialCommands_def)
qed

lemma cmd_replay:
  assumes "serialLine e = Some l"
    and "startsWith (toLowerCase (trim l)) ''replay'' \<or> startsWith (toLowerCase (trim l)) ''replicate''"
  shows "processSerialCommands e s = Returned (replayVoltages e s)"
proof -
  from assms(2) obtain t where "toLowerCase (trim l) = ''replay'' @ t \<or> toLowerCase (trim l) = ''replicate'' @ t"
    by (auto simp: startsWith_append)
  with assms(1) show ?thesis
    by (auto simp: processSerialCommands_def)
qed

lemma cmd_status:
  assumes "serialLine e = Some l" and "startsWith (toLowerCase (trim l)) ''status''"
  shows "processSerialCommands e s = Returned (printStatus e s)"
proof -
  from assms(2) obtain t where "toLowerCase (trim l) = ''status'' @ t"
    by (auto simp: startsWith_append)
  with assms(1) show ?thesis
    by (simp add: processSerialCommands_def)
qed

lemma cmd_clear:
  assumes "serialLine e = Some l" and "startsWith (toLowerCase (trim l)) ''clear''"
  shows "processSerialCommands e s = Returned (println BufferCleared (s\<lparr>sampleCount := 0\<rparr>))"
proof -
  from assms(2) obtain t where "toLowerCase (trim l) = ''clear'' @ t"
    by (auto simp: startsWith_append)
  with assms(1) show ?thesis
    by (simp add: processSerialCommands_def)
qed

lemma cmd_rate:
  assumes "serialLine e = Some l" and "startsWith (toLowerCase (trim l)) ''rate''"
  shows "processSerialCommands e s =
    (let newRate = toInt (substring (toLowerCase (trim l)) 5)
     in if newRate > 0 \<and> newRate \<le> 10000
        then Returned (if newRate > 200
               then println RateWarning (println (RateSet newRate) (s\<lparr>sampleRate := newRate\<rparr>))
               else println (RateSet newRate) (s\<lparr>sampleRate := newRate\<rparr>))
        else Returned (println InvalidRate s))"
proof -
  from assms(2) obtain t where "toLowerCase (trim l) = ''rate'' @ t"
    by (auto simp: startsWith_append)
  with assms(1) show ?thesis
    by (simp add: processSerialCommands_def Let_def)
qed

subsection \<open>What the commands leave unchanged\<close>

lemma core_println [simp]: "core (println m s) = core s"
  by (simp add: core_def)

lemma core_outputs [simp]:
  "core (s\<lparr>serialOut := x\<rparr>) = core s"
  "core (s\<lparr>dacOut := y\<rparr>) = core s"
  "core (s\<lparr>led := z\<rparr>) = core s"
  by (simp_all add: core_def)

lemma wellformed_core: "core s' = core s \<Longrightarrow> wellformed s' = wellformed s"
  by (simp add: core_def wellformed_def)

lemma core_printRows: "core (final (printRows e i s)) = core s"
proof (induction e i s rule: printRows.induct)
  case (1 e i s)
  show ?case
    by (subst printRows.simps) (auto simp: Let_def 1 split: option.splits)
qed

lemma core_printData: "core (final (printData e s)) = core s"
proof -
  have "core (final (printRows e 0 t)) = core t" for t
    by (rule core_printRows)
  then show ?thesis
    by (auto simp: printData_def Let_def split: outcome.splits)
      (metis core_println final.simps)+
qed

lemma core_replayLoop: "core (replayLoop e i l s) = core s"
proof (induction e i l s rule: replayLoop.induct)
  case (1 e i l s)
  show ?case
    by (subst replayLoop.simps) (auto simp: Let_def 1)
qed

lemma core_replayVoltages: "core (replayVoltages e s) = core s"
  by (simp add: replayVoltages_def Let_def core_replayLoop)

lemma core_printStatus: "core (printStatus e s) = core s"
  by (simp add: printStatus_def Let_def split: prod.splits)

lemma core_printHelp: "core (printHelp s) = core s"
proof -
  have "core (fold println ms s) = core s" for ms
    by (induction ms arbitrary: s) simp_all
  then show ?thesis by (simp add: printHelp_def)
qed


subsection \<open>The invariant\<close>

lemma readVoltage_nonneg: "0 \<le> readVoltageHighPrecision e adc s"
  by (simp add: readVoltageHighPrecision_def Let_def)

lemma wellformed_println [simp]: "wellformed (println m s) = wellformed s"
  by (rule wellformed_core) simp

lemma wellformed_start: "wellformed s \<Longrightarrow> wellformed (startRecording t s)"
  by (simp add: startRecording_def wellformed_def MAX_SAMPLES_def)

lemma wellformed_stop: "wellformed s \<Longrightarrow> wellformed (stopRecording t s)"
  by (simp add: stopRecording_def wellformed_def)

lemma wellformed_calibrate: "wellformed s \<Longrightarrow> wellformed (calibrateADCOffset e adc s)"
  by (simp add: calibrateADCOffset_def wellformed_def Let_def)

lemma wellformed_cmd:
  assumes "wellformed s"
  shows "wellformed (final (processSerialCommands e s))"
proof -
  have a: "wellformed (final (printData e s))" "wellformed (replayVoltages e s)"
    "wellformed (printStatus e s)" "wellformed (printHelp s)"
    using assms
    by (simp_all add: wellformed_core [OF core_printData] wellformed_core [OF core_replayVoltages]
        wellformed_core [OF core_printStatus] wellformed_core [OF core_printHelp])
  have b: "wellformed (s\<lparr>sampleCount := 0\<rparr>)"
    "0 < r \<Longrightarrow> r \<le> 10000 \<Longrightarrow> wellformed (s\<lparr>sampleRate := r\<rparr>)"
    "1 \<le> n \<Longrightarrow> n \<le> 1024 \<Longrightarrow> wellformed (s\<lparr>ADC_SAMPLES := n\<rparr>)" for r n
    using assms by (simp_all add: wellformed_def MAX_SAMPLES_def)
  show ?thesis
    unfolding processSerialCommands_def
    by (simp add: Let_def a b assms wellformed_start wellformed_stop wellformed_calibrate
        split: option.splits)
qed

lemma wellformed_sampleStep:
  assumes "wellformed s"
  shows "wellformed (sampleStep e s)"
proof -
  have "set ((voltageBuffer s)[n := readVoltageHighPrecision e a t]) \<subseteq>
          insert (readVoltageHighPrecision e a t) (set (voltageBuffer s))" for n a t
    by (rule set_update_subset_insert)
  moreover have "\<forall>v \<in> insert (readVoltageHighPrecision e a t) (set (voltageBuffer s)). 0 \<le> v" for a t
    using assms by (simp add: wellformed_def readVoltage_nonneg)
  ultimately have nn: "\<forall>v \<in> set ((voltageBuffer s)[n := readVoltageHighPrecision e a t]). 0 \<le> v" for n a t
    by blast
  show ?thesis
    using assms nn
    by (auto simp: sampleStep_def Let_def wellformed_def stopRecording_def)
qed

lemma wellformed_loop: "wellformed s \<Longrightarrow> wellformed (final (loop e s))"
  using wellformed_cmd [of s e]
  by (auto simp: loop_def wellformed_sampleStep split: outcome.splits)

lemma wellformed_initial: "wellformed initial"
proof -
  have "0 \<le> MAX_SAMPLES" by (simp add: MAX_SAMPLES_def)
  then show ?thesis
    by (auto simp: wellformed_def initial_def DEFAULT_SAMPLE_RATE_def)
qed

lemma wellformed_setup: "wellformed (setup_sketch e initial)"
proof -
  have "wellformed (setup_sketch e s)" if "wellformed s" for s
  proof -
    have "wellformed (printHelp t) = wellformed t" for t
      by (rule wellformed_core [OF core_printHelp])
    moreover have "wellformed (t\<lparr>led := b\<rparr>) = wellformed t"
      "wellformed (t\<lparr>dacOut := d\<rparr>) = wellformed t" for t b d
      by (simp_all add: wellformed_def)
    ultimately show ?thesis
      using that by (simp add: setup_sketch_def Let_def wellformed_calibrate)
  qed
  then show ?thesis by (simp add: wellformed_initial)
qed

lemma wellformed_run: "wellformed s \<Longrightarrow> wellformed (final (run es s))"
proof (induction es arbitrary: s)
  case Nil
  then show ?case by simp
next
  case (Cons e es)
  from Cons.prems have "wellformed (final (loop e s))"
    by (rule wellformed_loop)
  then show ?case
    by (cases "loop e s") (simp_all add: Cons.IH)
qed


subsection \<open>The sampling step and the numeric arguments\<close>

lemma initial_fields [simp]:
  "recording initial = False" "sampleCount initial = 0" "sampleRate initial = 100"
  "lastSampleTime initial = 0" "recordingStartTime initial = 0" "recordingEndTime initial = 0"
  "adcOffset initial = 0" "ADC_SAMPLES initial = 64" "serialOut initial = []"
  "dacOut initial = []" "led initial = False"
  by (simp_all add: initial_def DEFAULT_SAMPLE_RATE_def)

lemma quiet_fields [simp]:
  "serialLine quiet = None" "millisCmd quiet = 0" "millisReplayEnd quiet = 0"
  "millisTick quiet = 0" "millisFull quiet = 0" "adcCmd quiet = (\<lambda>i. 0)" "adcTick quiet = (\<lambda>i. 0)"
  "rawToVoltage quiet = (\<lambda>r. r)" "replayAvail quiet = (\<lambda>i. False)" "pageAvail quiet = (\<lambda>i n. False)"
  by (simp_all add: quiet_def)

lemma cdiv_pos: "0 \<le> a \<Longrightarrow> 0 < b \<Longrightarrow> cdiv a b = a div b"
  by (cases "a = 0") (simp_all add: cdiv_def)

lemma cmod_pos: "0 \<le> a \<Longrightarrow> 0 < b \<Longrightarrow> cmod a b = a mod b"
  by (simp add: cmod_def cdiv_pos minus_mult_div_eq_mod)

lemma sampleStep_full: "MAX_SAMPLES \<le> sampleCount s \<Longrightarrow> sampleStep e s = s"
  by (simp add: sampleStep_def)

lemma sampleStep_reaches_full:
  assumes "sampleCount s < MAX_SAMPLES" and "sampleCount (sampleStep e s) = MAX_SAMPLES"
  shows "recording s \<and> \<not> recording (sampleStep e s) \<and> recordingEndTime (sampleStep e s) = millisFull e"
  using assms
  by (auto simp: sampleStep_def Let_def stopRecording_def split: if_splits)



lemma sampleStep_due:
  assumes "recording s" and "sampleCount s < MAX_SAMPLES"
    and "millisTick e - lastSampleTime s \<ge> word_of_int (cdiv 1000 (sampleRate s))"
  shows "sampleCount (sampleStep e s) = sampleCount s + 1"
    and "voltageBuffer (sampleStep e s) =
           (voltageBuffer s)[nat (sampleCount s) := readVoltageHighPrecision e (adcTick e) s]"
  using assms
  by (simp_all add: sampleStep_def Let_def stopRecording_def readVoltageHighPrecision_def)

lemma sampleStep_not_due:
  assumes "\<not> (recording s \<and> sampleCount s < MAX_SAMPLES
      \<and> millisTick e - lastSampleTime s \<ge> word_of_int (cdiv 1000 (sampleRate s)))"
  shows "sampleCount (sampleStep e s) = sampleCount s"
    and "voltageBuffer (sampleStep e s) = voltageBuffer s"
  using assms
  by (auto simp: sampleStep_def Let_def)

lemma toInt_noLeadingInteger:
  assumes "noLeadingInteger a"
  shows "toInt a = 0"
proof (cases "dropWhile isspace a")
  case Nil
  show ?thesis unfolding toInt_def Nil by simp
next
  case (Cons c cs)
  have "isdigit CHR ''-'' = False" "isdigit CHR ''+'' = False"
    by (simp_all add: isdigit_def)
  with assms show ?thesis
    unfolding toInt_def noLeadingInteger_def Cons
    by (cases cs) (auto simp: saturate_long_def split: if_splits)
qed

lemma status_reports_rate: "StatusRate (sampleRate s) \<in> set (serialOut (printStatus e s))"
  by (simp add: printStatus_def Let_def split: prod.splits)

subsection \<open>Evaluating the rounding\<close>

lemma bitlen_nat_0 [simp]: "bitlen_nat 0 = 0"
  by (simp add: bitlen_nat.simps)

lemma bitlen_nat_Suc_0 [simp]: "bitlen_nat (Suc 0) = Suc 0"
  by (simp add: bitlen_nat.simps)

lemma bitlen_nat_numeral [simp]: "bitlen_nat (numeral k) = Suc (bitlen_nat (numeral k div 2))"
  by (subst bitlen_nat.simps) simp

lemmas float_eval = f32_def f64_def ieee_round_def ilog2_def pow2_def round_even_def Let_def ceiling_def

lemma f64_3_3: "f64 (33 / 10) = 3715469692580659 / 1125899906842624"
  by (simp add: float_eval)

lemma f32_3_3: "f32 (f64 (33 / 10)) = 13841203 / 4194304"
  by (simp add: f64_3_3) (simp add: float_eval)

lemma dac_full_scale: "dacValue (13841203 / 4194304) = 254"
proof -
  have a: "(13841203 / 4194304 * 255 :: real) = 3529506765 / 4194304"
    by simp
  have b: "f64 (3529506765 / 4194304) = 3529506765 / 4194304"
    by (simp add: float_eval)
  have c: "(3529506765 / 4194304 / (3715469692580659 / 1125899906842624) :: real)
      = 947444757917859840 / 3715469692580659"
    by simp
  have d: "f64 (947444757917859840 / 3715469692580659) = 8972014753010037 / 35184372088832"
    by (simp add: float_eval)
  have e: "to_u8 (8972014753010037 / 35184372088832) = 254"
    by (simp add: to_u8_def)
  show ?thesis
    unfolding dacValue_def f64_3_3 a b c d by (rule e)
qed

lemma round_even_nonneg: "0 \<le> x \<Longrightarrow> 0 \<le> round_even x"
  by (auto simp: round_even_def Let_def)

lemma pow2_pos: "0 < pow2 k"
  by (simp add: pow2_def)

lemma ieee_round_nonneg: "0 \<le> x \<Longrightarrow> 0 \<le> ieee_round p emin x"
  by (simp add: ieee_round_def Let_def round_even_nonneg pow2_pos less_imp_le)

lemma f32_nonneg: "0 \<le> x \<Longrightarrow> 0 \<le> f32 x"
  by (simp add: f32_def ieee_round_nonneg)


subsection \<open>What replay writes and what status prints\<close>

lemma upt_int_step: "0 \<le> i \<Longrightarrow> i < n \<Longrightarrow> [nat i ..< nat n] = nat i # [nat (i + 1) ..< nat n]"
  by (simp add: upt_conv_Cons nat_add_distrib)

lemma dacOut_replayLoop:
  "0 \<le> i \<Longrightarrow> \<forall>j. i \<le> j \<and> j < sampleCount s \<longrightarrow> \<not> replayAvail e (nat j) \<Longrightarrow>
   dacOut (replayLoop e i l s) =
     dacOut s @ map (\<lambda>j. dacValue (clampVoltage (voltageBuffer s ! j))) [nat i ..< nat (sampleCount s)]"
proof (induction e i l s rule: replayLoop.induct)
  case (1 e i l s)
  show ?case
  proof (cases "i < sampleCount s")
    case True
    with "1.prems" have na: "\<not> replayAvail e (nat i)" by simp
    from "1.prems" have later: "\<forall>j. i + 1 \<le> j \<and> j < sampleCount s \<longrightarrow> \<not> replayAvail e (nat j)"
      by simp
    show ?thesis
      using True na "1.prems"(1) later "1.IH"
      by (subst replayLoop.simps) (simp add: Let_def upt_int_step)
  next
    case False
    then show ?thesis
      by (subst replayLoop.simps) simp
  qed
qed

lemma dacOut_replayVoltages:
  assumes "sampleCount s \<noteq> 0" and "\<forall>j. 0 \<le> j \<and> j < sampleCount s \<longrightarrow> \<not> replayAvail e (nat j)"
  shows "dacOut (replayVoltages e s) =
     dacOut s @ map (\<lambda>j. dacValue (clampVoltage (voltageBuffer s ! j))) [0 ..< nat (sampleCount s)] @ [0]"
  using assms dacOut_replayLoop [of 0 "println TypeAnyKey (println DacNote (println (Replaying (sampleCount s)) s))" e "- 1"]
  by (simp add: replayVoltages_def Let_def)

lemma statsStep_nonneg:
  assumes "0 \<le> buf ! i" and "0 \<le> mn" and "0 \<le> av"
    and "statsStep buf i (mn, mx, av) = (mn', mx', av')"
  shows "0 \<le> mn' \<and> 0 \<le> av'"
  using assms by (auto simp: statsStep_def f32_nonneg split: if_splits)

lemma fold_statsStep_nonneg:
  assumes "\<forall>i \<in> set js. 0 \<le> buf ! i" and "0 \<le> mn" and "0 \<le> av"
    and "fold (statsStep buf) js (mn, mx, av) = (mn', mx', av')"
  shows "0 \<le> mn' \<and> 0 \<le> av'"
  using assms
proof (induction js arbitrary: mn mx av)
  case Nil
  then show ?case by simp
next
  case (Cons j js)
  obtain a b c where st: "statsStep buf j (mn, mx, av) = (a, b, c)"
    by (cases "statsStep buf j (mn, mx, av)") auto
  with Cons.prems have "0 \<le> a \<and> 0 \<le> c"
    using statsStep_nonneg [of buf j mn av mx a b c] by simp
  with Cons.IH [of a c b] Cons.prems st show ?case
    by simp
qed

lemma bufferStats_nonneg:
  assumes "wellformed s" and "0 < sampleCount s" and "bufferStats s = (mn, mx, av)"
  shows "0 \<le> mn \<and> 0 \<le> av"
proof -
  from assms(1) have nn: "\<forall>v \<in> set (voltageBuffer s). 0 \<le> v"
    and len: "length (voltageBuffer s) = nat MAX_SAMPLES" and le: "sampleCount s \<le> MAX_SAMPLES"
    by (simp_all add: wellformed_def)
  have idx: "\<forall>i \<in> set [0 ..< nat (sampleCount s)]. 0 \<le> voltageBuffer s ! i"
    using nn len le by (auto intro!: nn [rule_format] nth_mem)
  have z: "0 \<le> voltageBuffer s ! 0"
    using idx assms(2) by auto
  obtain a b c where f: "fold (statsStep (voltageBuffer s)) [0 ..< nat (sampleCount s)]
             (voltageBuffer s ! 0, voltageBuffer s ! 0, 0) = (a, b, c)"
    using prod_cases3 by blast
  from fold_statsStep_nonneg [OF idx z _ f] have ac: "0 \<le> a \<and> 0 \<le> c" by simp
  from assms(3) f have "mn = a" "av = f32 (c / f32 (of_int (sampleCount s)))"
    by (simp_all add: bufferStats_def)
  moreover have "0 \<le> f32 (of_int (sampleCount s))"
    using assms(2) by (simp add: f32_nonneg)
  ultimately show ?thesis
    using ac by (simp add: f32_nonneg)
qed

lemma bufferStats_println [simp]: "bufferStats (println m s) = bufferStats s"
  by (simp add: bufferStats_def)

lemma printStatus_range:
  assumes "0 < sampleCount s" and "bufferStats s = (mn, mx, av)"
  shows "\<exists>ms d. serialOut (printStatus e s) = serialOut s @ ms @ [RecordedRange mn mx av, ActualDuration d]"
  using assms
  by (simp add: printStatus_def Let_def)


lemma setup_sketch_fields [simp]:
  "recording (setup_sketch e s) = recording s"
  "sampleCount (setup_sketch e s) = sampleCount s"
  "sampleRate (setup_sketch e s) = sampleRate s"
  "lastSampleTime (setup_sketch e s) = lastSampleTime s"
proof -
  have "core (printHelp t) = core t" for t by (rule core_printHelp)
  then have h: "recording (printHelp t) = recording t" "sampleCount (printHelp t) = sampleCount t"
    "sampleRate (printHelp t) = sampleRate t" "lastSampleTime (printHelp t) = lastSampleTime t" for t
    by (simp_all add: core_def)
  show "recording (setup_sketch e s) = recording s"
    "sampleCount (setup_sketch e s) = sampleCount s"
    "sampleRate (setup_sketch e s) = sampleRate s"
    "lastSampleTime (setup_sketch e s) = lastSampleTime s"
    by (simp_all add: setup_sketch_def Let_def h calibrateADCOffset_def)
qed

subsection \<open>The table of \<open>printData\<close>\<close>

lemma awaitByte_SomeD: "awaitByte avail n = Some m \<Longrightarrow> avail m"
  by (erule awaitByte.raw_induct [rotated]) (auto split: if_splits)

lemma awaitByte_None: "\<forall>k. \<not> avail k \<Longrightarrow> awaitByte avail n = None"
  using awaitByte_SomeD [of avail n] by (cases "awaitByte avail n") auto

lemma awaitByte_Some: "avail (n + k) \<Longrightarrow> \<exists>m. awaitByte avail n = Some m"
proof (induction k arbitrary: n)
  case 0
  then show ?case by (subst awaitByte.simps) simp
next
  case (Suc k)
  from Suc.prems have "avail (Suc n + k)" by simp
  from Suc.IH [OF this] show ?case
    by (subst awaitByte.simps) simp
qed

lemma tableBody_empty [simp]: "m \<le> i \<Longrightarrow> tableBody buf rate n i m = []"
  by (simp add: tableBody_def)

lemma tableBody_step:
  "i < m \<Longrightarrow> tableBody buf rate n i m =
     Row (int i) (buf ! i) (rowTimeMs rate (int i))
       # (if pauseAfter n (int i) then [PressAnyKey] else []) @ tableBody buf rate n (Suc i) m"
  by (simp add: tableBody_def upt_conv_Cons)

lemma printRows_returns:
  "0 \<le> i \<Longrightarrow>
   \<forall>j. i \<le> j \<and> pauseAfter (sampleCount s) j \<longrightarrow> (\<exists>k. pageAvail e (nat j) k) \<Longrightarrow>
   printRows e i s = Returned (s\<lparr>serialOut := serialOut s @
       tableBody (voltageBuffer s) (sampleRate s) (sampleCount s) (nat i) (nat (sampleCount s))\<rparr>)"
proof (induction e i s rule: printRows.induct)
  case (1 e i s)
  show ?case
  proof (cases "i < sampleCount s")
    case False
    then show ?thesis
      by (subst printRows.simps) simp
  next
    case True
    with "1.prems"(1) have lt: "nat i < nat (sampleCount s)" by simp
    have nx: "nat (i + 1) = Suc (nat i)" "int (nat i) = i"
      using "1.prems"(1) by simp_all
    have later: "\<forall>j. i + 1 \<le> j \<and> pauseAfter (sampleCount s) j \<longrightarrow> (\<exists>k. pageAvail e (nat j) k)"
      using "1.prems"(2) by simp
    show ?thesis
    proof (cases "pauseAfter (sampleCount s) i")
      case p: True
      with "1.prems"(2) obtain k where "pageAvail e (nat i) (0 + k)" by auto
      then obtain m where m: "awaitByte (pageAvail e (nat i)) 0 = Some m"
        using awaitByte_Some by blast
      show ?thesis
        using True p m "1.prems"(1) later "1.IH"(1) [OF True refl refl p m]
        by (subst printRows.simps) (simp add: Let_def tableBody_step [OF lt] nx println_def)
    next
      case p: False
      show ?thesis
        using True p "1.prems"(1) later "1.IH"(2) [OF True refl refl p]
        by (subst printRows.simps) (simp add: Let_def tableBody_step [OF lt] nx println_def)
    qed
  qed
qed


lemma printRows_blocks:
  "0 \<le> i \<Longrightarrow> i \<le> j \<Longrightarrow> pauseAfter (sampleCount s) j \<Longrightarrow> \<forall>k. \<not> pageAvail e (nat j) k \<Longrightarrow>
   \<forall>j'. i \<le> j' \<and> j' < j \<and> pauseAfter (sampleCount s) j' \<longrightarrow> (\<exists>k. pageAvail e (nat j') k) \<Longrightarrow>
   printRows e i s = Blocked (s\<lparr>serialOut := serialOut s @
       tableBody (voltageBuffer s) (sampleRate s) (sampleCount s) (nat i) (Suc (nat j))\<rparr>)"
proof (induction e i s rule: printRows.induct)
  case (1 e i s)
  from "1.prems"(3) have "j < sampleCount s - 1" by (simp add: pauseAfter_def)
  with "1.prems"(2) have True: "i < sampleCount s" by simp
  have lt: "nat i < Suc (nat j)" using "1.prems"(1,2) by simp
  have nx: "nat (i + 1) = Suc (nat i)" "int (nat i) = i"
    using "1.prems"(1) by simp_all
  show ?case
  proof (cases "i = j")
    case eq: True
    with "1.prems"(3,4) have p: "pauseAfter (sampleCount s) i"
      and m: "awaitByte (pageAvail e (nat i)) 0 = None"
      by (simp_all add: awaitByte_None)
    show ?thesis
      using True p m eq "1.prems"(1)
      by (subst printRows.simps) (simp add: Let_def tableBody_step println_def)
  next
    case ne: False
    with "1.prems"(2) have ij: "i + 1 \<le> j" "i < j" by simp_all
    have later: "\<forall>j'. i + 1 \<le> j' \<and> j' < j \<and> pauseAfter (sampleCount s) j' \<longrightarrow> (\<exists>k. pageAvail e (nat j') k)"
      using "1.prems"(5) by simp
    show ?thesis
    proof (cases "pauseAfter (sampleCount s) i")
      case p: True
      with "1.prems"(5) ij obtain k where "pageAvail e (nat i) (0 + k)" by auto
      then obtain m where m: "awaitByte (pageAvail e (nat i)) 0 = Some m"
        using awaitByte_Some by blast
      show ?thesis
        using True p m "1.prems"(1,3,4) ij later "1.IH"(1) [OF True refl refl p m]
        by (subst printRows.simps) (simp add: Let_def tableBody_step [OF lt] nx println_def)
    next
      case p: False
      show ?thesis
        using True p "1.prems"(1,3,4) ij later "1.IH"(2) [OF True refl refl p]
        by (subst printRows.simps) (simp add: Let_def tableBody_step [OF lt] nx println_def)
    qed
  qed
qed

lemma printData_returns:
  assumes "0 < sampleCount s"
    and "\<forall>j. 0 \<le> j \<and> pauseAfter (sampleCount s) j \<longrightarrow> (\<exists>k. pageAvail e (nat j) k)"
  shows "printData e s = Returned (s\<lparr>serialOut := serialOut s
       @ [PrintingSamples (sampleCount s), TableHeader, TableRule]
       @ tableBody (voltageBuffer s) (sampleRate s) (sampleCount s) 0 (nat (sampleCount s))
       @ [TableRule, TotalSamples (sampleCount s)]\<rparr>)"
  using assms
    printRows_returns [of 0 "println TableRule (println TableHeader
      (println (PrintingSamples (sampleCount s)) s))" e]
  by (simp add: printData_def Let_def println_def)

lemma printData_blocks:
  assumes "0 \<le> j" and "pauseAfter (sampleCount s) j" and "\<forall>k. \<not> pageAvail e (nat j) k"
    and "\<forall>j'. 0 \<le> j' \<and> j' < j \<and> pauseAfter (sampleCount s) j' \<longrightarrow> (\<exists>k. pageAvail e (nat j') k)"
  shows "printData e s = Blocked (s\<lparr>serialOut := serialOut s
       @ [PrintingSamples (sampleCount s), TableHeader, TableRule]
       @ tableBody (voltageBuffer s) (sampleRate s) (sampleCount s) 0 (Suc (nat j))\<rparr>)"
proof -
  from assms(1,2) have "sampleCount s \<noteq> 0" by (auto simp: pauseAfter_def)
  then show ?thesis
    using assms
      printRows_blocks [of 0 j "println TableRule (println TableHeader
        (println (PrintingSamples (sampleCount s)) s))" e]
    by (simp add: printData_def Let_def println_def)
qed

lemma tableBody_rows:
  "filter (\<lambda>m. m \<noteq> PressAnyKey) (tableBody buf rate n i m)
     = map (\<lambda>j. Row (int j) (buf ! j) (rowTimeMs rate (int j))) [i ..< m]"
proof -
  have "filter (\<lambda>m. m \<noteq> PressAnyKey) (concat (map (\<lambda>j. Row (int j) (buf ! j) (rowTimeMs rate (int j))
                       # (if pauseAfter n (int j) then [PressAnyKey] else [])) js))
     = map (\<lambda>j. Row (int j) (buf ! j) (rowTimeMs rate (int j))) js" for js
    by (induction js) simp_all
  then show ?thesis by (simp add: tableBody_def)
qed

lemma no_pause_before_20: "0 \<le> j \<Longrightarrow> j < 19 \<Longrightarrow> \<not> pauseAfter n j"
  by (simp add: pauseAfter_def cmod_pos)

lemma upt_10: "[0 ..< 10] = [0, 1, 2, 3, 4, 5, 6, 7, 8, 9 :: nat]"
  by code_simp

lemma rowTimeMs_50:
  "rowTimeMs 50 0 = 0" "rowTimeMs 50 1 = 20" "rowTimeMs 50 2 = 40" "rowTimeMs 50 3 = 60"
  "rowTimeMs 50 4 = 80" "rowTimeMs 50 5 = 100" "rowTimeMs 50 6 = 120" "rowTimeMs 50 7 = 140"
  "rowTimeMs 50 8 = 160" "rowTimeMs 50 9 = 180"
  by (simp_all add: rowTimeMs_def float_eval)

lemma initial_buffer_nth: "j < 5000 \<Longrightarrow> voltageBuffer initial ! j = 0"
  by (simp add: initial_def MAX_SAMPLES_def)

subsection \<open>The report of a replay\<close>

lemma serialOut_replayLoop:
  "\<exists>ms. serialOut (replayLoop e i l s) = serialOut s @ ms
        \<and> (\<forall>m \<in> set ms. \<exists>j v d. m = SampleDac j v d)"
proof (induction e i l s rule: replayLoop.induct)
  case (1 e i l s)
  show ?case
  proof (cases "i < sampleCount s \<and> \<not> replayAvail e (nat i)")
    case False
    then show ?thesis
      by (subst replayLoop.simps) auto
  next
    case True
    let ?v = "clampVoltage (voltageBuffer s ! nat i)"
    let ?s1 = "s\<lparr>dacOut := dacOut s @ [dacValue ?v]\<rparr>"
    show ?thesis
    proof (cases "cmod i 50 = 0 \<or> \<bar>f32 (?v - l)\<bar> > f64 (1 / 10)")
      case p: True
      from "1.IH"(1) [OF True refl refl p] obtain ms where
        "serialOut (replayLoop e (i + 1) ?v (println (SampleDac i ?v (dacValue ?v)) ?s1))
           = serialOut (println (SampleDac i ?v (dacValue ?v)) ?s1) @ ms"
        "\<forall>m \<in> set ms. \<exists>j v d. m = SampleDac j v d"
        by blast
      then have "serialOut (replayLoop e i l s) = serialOut s @ (SampleDac i ?v (dacValue ?v) # ms)
          \<and> (\<forall>m \<in> set (SampleDac i ?v (dacValue ?v) # ms). \<exists>j v d. m = SampleDac j v d)"
        using True p by (subst replayLoop.simps) (simp add: Let_def)
      then show ?thesis by blast
    next
      case p: False
      from "1.IH"(2) [OF True refl refl p] obtain ms where
        "serialOut (replayLoop e (i + 1) l ?s1) = serialOut ?s1 @ ms"
        "\<forall>m \<in> set ms. \<exists>j v d. m = SampleDac j v d"
        by blast
      then have "serialOut (replayLoop e i l s) = serialOut s @ ms
          \<and> (\<forall>m \<in> set ms. \<exists>j v d. m = SampleDac j v d)"
        using True p by (subst replayLoop.simps) (simp add: Let_def)
      then show ?thesis by blast
    qed
  qed
qed

lemma core_fields:
  assumes "core s' = core s"
  shows "sampleRate s' = sampleRate s" "sampleCount s' = sampleCount s"
    "recordingStartTime s' = recordingStartTime s" "recordingEndTime s' = recordingEndTime s"
  using assms by (simp_all add: core_def)

lemma expectedDuration_core: "core s' = core s \<Longrightarrow> expectedDuration s' = expectedDuration s"
  using core_fields [of s' s] by (simp add: expectedDuration_def)

lemma replayVoltages_report:
  assumes "sampleCount s \<noteq> 0"
    and "replaySec = f32 (f64 (real (unat (millisReplayEnd e - millisCmd e)) / 1000))"
  shows "\<exists>ms. serialOut (replayVoltages e s) =
           serialOut s @ ms @ [Durations (expectedDuration s) replaySec]
             @ (if sampleRate s > 200 then [ReplayRateWarning] else [])
             @ (if \<bar>f32 (replaySec - expectedDuration s)\<bar> > f64 (f64 (1 / 5) * expectedDuration s)
                then [ExceededStableRate] else [])
         \<and> ExceededStableRate \<notin> set ms \<and> (\<forall>a b. Durations a b \<notin> set ms)"
proof -
  let ?s0 = "println TypeAnyKey (println DacNote (println (Replaying (sampleCount s)) s))"
  let ?s1 = "replayLoop e 0 (- 1) ?s0"
  obtain ms where ms: "serialOut ?s1 = serialOut ?s0 @ ms"
    "\<forall>m \<in> set ms. \<exists>j v d. m = SampleDac j v d"
    using serialOut_replayLoop by blast
  have c: "core ?s1 = core s"
    by (simp add: core_replayLoop)
  have ex: "expectedDuration (println ReplayCompleted (?s1\<lparr>dacOut := dacOut ?s1 @ [0]\<rparr>))
      = expectedDuration s"
    by (rule expectedDuration_core) (simp add: c)
  have r: "sampleRate ?s1 = sampleRate s"
    using c by (rule core_fields)
  let ?ms = "[Replaying (sampleCount s), DacNote, TypeAnyKey] @ ms @ [ReplayCompleted]"
  have "serialOut (replayVoltages e s) =
           serialOut s @ ?ms @ [Durations (expectedDuration s) replaySec]
             @ (if sampleRate s > 200 then [ReplayRateWarning] else [])
             @ (if \<bar>f32 (replaySec - expectedDuration s)\<bar> > f64 (f64 (1 / 5) * expectedDuration s)
                then [ExceededStableRate] else [])"
    using assms(1) by (simp add: replayVoltages_def Let_def ex r ms(1) assms(2))
  moreover have "ExceededStableRate \<notin> set ?ms \<and> (\<forall>a b. Durations a b \<notin> set ?ms)"
    using ms(2) by auto
  ultimately show ?thesis by blast
qed

lemma duration_values:
  "f32 (f64 1) = 1" "f32 (f64 (3 / 2)) = 3 / 2" "f32 (f64 (6 / 5)) = 5033165 / 4194304"
  "f32 100 = 100" "f32 (1 / 2) = 1 / 2" "f32 0 = 0" "f32 1 = 1"
  "f32 (838861 / 4194304) = 838861 / 4194304"
  "f64 (1 / 5) = 3602879701896397 / 18014398509481984"
  "f64 (3602879701896397 / 18014398509481984) = 3602879701896397 / 18014398509481984"
  by (simp_all add: float_eval)

subsection \<open>Rounding to the nearest value\<close>

text \<open>
  The rounding is what IEEE 754 asks for: \<open>ilog2\<close> is the binary exponent, the result is
  a multiple of the unit in the last place of that exponent, and it differs from the
  exact value by at most half that unit.
\<close>

lemma pow2_power_int: "pow2 e = power_int 2 e"
  by (simp add: pow2_def power_int_def inverse_eq_divide power_one_over)

lemma bitlen_nat_bounds: "0 < n \<Longrightarrow> 2 ^ (bitlen_nat n - 1) \<le> n \<and> n < 2 ^ bitlen_nat n"
proof (induction n rule: bitlen_nat.induct)
  case (1 n)
  show ?case
  proof (cases "n div 2 = 0")
    case True
    with "1.prems" have "n = 1" by (simp add: div_eq_0_iff) 
    then show ?thesis by (simp add: bitlen_nat.simps)
  next
    case False
    with "1.prems" "1.IH" have ih: "2 ^ (bitlen_nat (n div 2) - 1) \<le> n div 2"
      "n div 2 < 2 ^ bitlen_nat (n div 2)"
      by simp_all
    have b: "bitlen_nat n = Suc (bitlen_nat (n div 2))"
      using "1.prems" by (subst bitlen_nat.simps) simp
    have pos: "0 < bitlen_nat (n div 2)"
      using False by (subst bitlen_nat.simps) simp
    then have "(2::nat) ^ bitlen_nat (n div 2) = 2 * 2 ^ (bitlen_nat (n div 2) - 1)"
      by (cases "bitlen_nat (n div 2)") simp_all
    with ih show ?thesis
      unfolding b by (simp) linarith
  qed
qed


lemma bitlen_real_bounds:
  assumes "0 < n"
  shows "2 ^ (bitlen_nat n - 1) \<le> real n" and "real n + 1 \<le> 2 ^ bitlen_nat n"
    and "0 < bitlen_nat n"
proof -
  from bitlen_nat_bounds [OF assms]
  have b: "2 ^ (bitlen_nat n - 1) \<le> n" "n + 1 \<le> 2 ^ bitlen_nat n" by simp_all
  from b(1) have "real (2 ^ (bitlen_nat n - 1)) \<le> real n"
    by (simp only: of_nat_le_iff)
  then show "2 ^ (bitlen_nat n - 1) \<le> real n" by simp
  from b(2) have "real (n + 1) \<le> real (2 ^ bitlen_nat n)"
    by (simp only: of_nat_le_iff)
  then show "real n + 1 \<le> 2 ^ bitlen_nat n" by simp
  show "0 < bitlen_nat n"
    using assms by (subst bitlen_nat.simps) simp
qed

lemma ilog2_bounds_ge1:
  assumes "1 \<le> x"
  shows "pow2 (ilog2 x) \<le> x \<and> x < pow2 (ilog2 x + 1)"
proof -
  define n where "n = nat \<lfloor>x\<rfloor>"
  have n0: "0 < n" using assms by (simp add: n_def)
  have n1: "real n \<le> x" using assms by (simp add: n_def)
  have n2: "x < real n + 1" using assms by (simp add: n_def)
  note b = bitlen_real_bounds [OF n0]
  obtain k where k: "bitlen_nat n = Suc k"
    using b(3) by (cases "bitlen_nat n") simp_all
  have i: "ilog2 x = int k"
    using assms by (simp add: ilog2_def n_def [symmetric] k)
  have p1: "pow2 (ilog2 x) = 2 ^ k"
    unfolding i by (simp add: pow2_def)
  have p2: "pow2 (ilog2 x + 1) = 2 ^ Suc k"
    unfolding i by (simp add: pow2_def nat_add_distrib)
  have r1: "(2::real) ^ k \<le> real n"
    using b(1) unfolding k by (simp only: diff_Suc_1)
  have r2: "real n + 1 \<le> 2 ^ Suc k"
    using b(2) unfolding k .
  show ?thesis
    unfolding p1 p2 using n1 n2 r1 r2 by linarith
qed

lemma ilog2_bounds_lt1:
  assumes "0 < x" and "x < 1"
  shows "pow2 (ilog2 x) \<le> x \<and> x < pow2 (ilog2 x + 1)"
proof -
  define m where "m = nat (\<lceil>1 / x\<rceil> - 1)"
  have gt: "1 < 1 / x" using assms by simp
  then have c: "2 \<le> \<lceil>1 / x\<rceil>" by linarith
  from c have z: "0 < \<lceil>1 / x\<rceil> - 1" by linarith
  then have m0: "0 < m" by (simp only: m_def zero_less_nat_eq)
  from z have "0 \<le> \<lceil>1 / x\<rceil> - 1" by linarith
  then have "real (nat (\<lceil>1 / x\<rceil> - 1)) = of_int (\<lceil>1 / x\<rceil> - 1)"
    by (rule of_nat_nat)
  then have mr: "real m = of_int \<lceil>1 / x\<rceil> - 1"
    by (simp only: m_def of_int_diff of_int_1)
  have m1: "real m < 1 / x" unfolding mr by linarith
  have m2: "1 / x \<le> real m + 1" unfolding mr by linarith
  note b = bitlen_real_bounds [OF m0]
  have i: "ilog2 x = - int (bitlen_nat m)"
    using assms by (simp add: ilog2_def m_def)
  have p1: "pow2 (ilog2 x) = 1 / 2 ^ bitlen_nat m"
    unfolding i using b(3) by (simp add: pow2_def)
  obtain k where k: "bitlen_nat m = Suc k"
    using b(3) by (cases "bitlen_nat m") simp_all
  have p2: "pow2 (ilog2 x + 1) = 1 / 2 ^ k"
    unfolding i k by (simp add: pow2_def)
  from b(2) m2 have "1 / x \<le> 2 ^ bitlen_nat m" by linarith
  then have l: "1 / 2 ^ bitlen_nat m \<le> x"
    using assms(1) by (simp add: field_simps)
  have "(2::real) ^ k \<le> real m"
    using b(1) unfolding k by (simp only: diff_Suc_1)
  with m1 have "2 ^ k < 1 / x" by linarith
  then have u: "x < 1 / 2 ^ k"
    using assms(1) by (simp add: field_simps)
  from l u show ?thesis unfolding p1 p2 by simp
qed

lemma ilog2_bounds:
  assumes "0 < x"
  shows "pow2 (ilog2 x) \<le> x \<and> x < pow2 (ilog2 x + 1)"
  using assms ilog2_bounds_ge1 [of x] ilog2_bounds_lt1 [of x]
  by (cases "1 \<le> x") simp_all

lemma ilog2_le:
  assumes "0 < x" and "x < pow2 (E + 1)"
  shows "ilog2 x \<le> E"
proof -
  from ilog2_bounds [OF assms(1)] assms(2) have "pow2 (ilog2 x) < pow2 (E + 1)" by linarith
  then have "power_int (2::real) (ilog2 x) < power_int 2 (E + 1)"
    by (simp add: pow2_power_int)
  then have "ilog2 x < E + 1"
    by (metis not_le power_int_increasing one_le_numeral not_less)
  then show ?thesis by simp
qed

lemma round_even_le_int: "x \<le> of_int k \<Longrightarrow> round_even x \<le> k"
proof -
  assume a: "x \<le> of_int k"
  then have f: "\<lfloor>x\<rfloor> \<le> k" by (simp add: floor_le_iff) 
  show ?thesis
  proof (cases "x = of_int \<lfloor>x\<rfloor>")
    case True
    then have "round_even x = \<lfloor>x\<rfloor>"
      by (simp add: round_even_def Let_def)
    with f show ?thesis by simp
  next
    case False
    then have "of_int \<lfloor>x\<rfloor> < x" by linarith
    with a have "\<lfloor>x\<rfloor> < k" by linarith
    moreover have "round_even x \<le> \<lfloor>x\<rfloor> + 1"
      by (simp add: round_even_def Let_def)
    ultimately show ?thesis by simp
  qed
qed

lemma ieee_round_le_grid:
  assumes "0 \<le> x" and "x \<le> of_int k * pow2 m" and "x < pow2 (m + int p)"
    and "emin \<le> m + int p - 1"
  shows "ieee_round p emin x \<le> of_int k * pow2 m"
proof (cases "x = 0")
  case True
  with assms(2) show ?thesis by (simp add: ieee_round_def)
next
  case False
  with assms(1) have pos: "0 < x" by simp
  define e where "e = max (ilog2 \<bar>x\<bar>) emin"
  define u where "u = pow2 (e - int p + 1)"
  have "ilog2 x \<le> m + int p - 1"
    using pos assms(3) by (intro ilog2_le) simp_all
  then have e: "e \<le> m + int p - 1"
    using assms(4) pos by (simp add: e_def)
  define d where "d = nat (m - (e - int p + 1))"
  have d: "int d = m - (e - int p + 1)"
    using e by (simp add: d_def)
  have upos: "0 < u" by (simp add: u_def pow2_power_int)
  have "pow2 m = power_int 2 (int d + (e - int p + 1))"
    by (simp add: pow2_power_int d)
  also have "\<dots> = 2 ^ d * u"
    by (subst power_int_add) (simp_all add: u_def pow2_power_int)
  finally have pm: "pow2 m = 2 ^ d * u" .
  have "x / u \<le> of_int (k * 2 ^ d)"
    using assms(2) upos by (simp add: pm field_simps)
  then have "round_even (x / u) \<le> k * 2 ^ d"
    by (rule round_even_le_int)
  then have "of_int (round_even (x / u)) * u \<le> of_int (k * 2 ^ d) * u"
    using upos by (simp only: mult_le_cancel_right_pos of_int_le_iff)
  then show ?thesis
    using False by (simp add: ieee_round_def Let_def e_def [symmetric] u_def [symmetric] pm mult.assoc)
qed


lemma round_even_error: "\<bar>of_int (round_even x) - x\<bar> \<le> 1 / 2"
proof -
  have "of_int \<lfloor>x\<rfloor> \<le> x" "x < of_int \<lfloor>x\<rfloor> + 1" by linarith+
  then show ?thesis
    by (auto simp: round_even_def Let_def abs_le_iff)
qed

lemma ieee_round_error:
  "\<bar>ieee_round p emin x - x\<bar> \<le> pow2 (max (ilog2 \<bar>x\<bar>) emin - int p + 1) / 2"
proof (cases "x = 0")
  case True
  then show ?thesis
    by (simp add: ieee_round_def pow2_power_int)
next
  case False
  define u where "u = pow2 (max (ilog2 \<bar>x\<bar>) emin - int p + 1)"
  have upos: "0 < u" by (simp add: u_def pow2_power_int)
  have "of_int (round_even (x / u)) * u - x = (of_int (round_even (x / u)) - x / u) * u"
    using upos by (simp add: field_simps)
  then have "\<bar>of_int (round_even (x / u)) * u - x\<bar> = \<bar>of_int (round_even (x / u)) - x / u\<bar> * u"
    using upos by (simp only: abs_mult abs_of_pos)
  also have "\<dots> \<le> 1 / 2 * u"
    using upos round_even_error [of "x / u"] by (intro mult_right_mono) simp_all
  finally show ?thesis
    using False by (simp add: ieee_round_def Let_def u_def [symmetric])
qed

lemma round_even_ge_int: "of_int k \<le> x \<Longrightarrow> k \<le> round_even x"
proof -
  assume "of_int k \<le> x"
  then have "k \<le> \<lfloor>x\<rfloor>" by (simp add: le_floor_iff)
  moreover have "\<lfloor>x\<rfloor> \<le> round_even x"
    by (simp add: round_even_def Let_def)
  ultimately show ?thesis by simp
qed

lemma ilog2_ge:
  assumes "0 < x" and "pow2 E \<le> x"
  shows "E \<le> ilog2 x"
proof -
  from ilog2_bounds [OF assms(1)] assms(2) have "pow2 E < pow2 (ilog2 x + 1)" by linarith
  then have "power_int (2::real) E < power_int 2 (ilog2 x + 1)"
    by (simp add: pow2_power_int)
  then have "E < ilog2 x + 1"
    by (metis not_le power_int_increasing one_le_numeral not_less)
  then show ?thesis by simp
qed

lemma ieee_round_nonpos: "x \<le> 0 \<Longrightarrow> ieee_round p emin x \<le> 0"
proof -
  assume a: "x \<le> 0"
  have "round_even (x / pow2 k) \<le> 0" for k
    using a pow2_pos [of k] by (intro round_even_le_int) (simp add: divide_nonpos_pos)
  then show ?thesis
    using pow2_pos by (simp add: ieee_round_def Let_def mult_le_0_iff less_imp_le)
qed

lemma ieee_round_ge_grid:
  assumes "of_int k * pow2 m \<le> x" and "0 < k" and "of_int k * pow2 m < pow2 (m + int p)"
    and "emin - int p + 1 \<le> m" and "0 < p"
  shows "of_int k * pow2 m \<le> ieee_round p emin x"
proof -
  have ypos: "0 < of_int k * pow2 m"
    using assms(2) pow2_pos by simp
  with assms(1) have pos: "0 < x" by linarith
  define e where "e = max (ilog2 x) emin"
  define u where "u = pow2 (e - int p + 1)"
  have upos: "0 < u" by (simp add: u_def pow2_pos)
  have r: "ieee_round p emin x = of_int (round_even (x / u)) * u"
    using pos by (simp add: ieee_round_def Let_def e_def [symmetric] u_def [symmetric])
  show ?thesis
  proof (cases "e - int p + 1 \<le> m")
    case True
    define d where "d = nat (m - (e - int p + 1))"
    have d: "int d = m - (e - int p + 1)"
      using True by (simp add: d_def)
    have "pow2 m = power_int 2 (int d + (e - int p + 1))"
      by (simp add: pow2_power_int d)
    also have "\<dots> = 2 ^ d * u"
      by (subst power_int_add) (simp_all add: u_def pow2_power_int)
    finally have pm: "pow2 m = 2 ^ d * u" .
    have "of_int (k * 2 ^ d) \<le> x / u"
      using assms(1) upos by (simp add: pm field_simps)
    then have "k * 2 ^ d \<le> round_even (x / u)"
      by (rule round_even_ge_int)
    then have "of_int (k * 2 ^ d) * u \<le> of_int (round_even (x / u)) * u"
      using upos by (simp only: mult_le_cancel_right_pos of_int_le_iff)
    then show ?thesis
      by (simp add: r pm mult.assoc)
  next
    case False
    then have me: "m + int p \<le> e" by simp
    with assms(4) have "emin < e" by simp
    then have e: "e = ilog2 x"
      using pos by (simp add: e_def max_def split: if_splits)
    from ilog2_bounds [OF pos] have xe: "pow2 e \<le> x" by (simp add: e)
    obtain q where q: "p = Suc q"
      using assms(5) by (cases p) simp_all
    have "pow2 e = power_int 2 (int q + (e - int p + 1))"
      by (simp add: pow2_power_int q)
    also have "\<dots> = 2 ^ q * u"
      by (subst power_int_add) (simp_all add: u_def pow2_power_int)
    finally have pe: "pow2 e = 2 ^ q * u" .
    have "of_int (2 ^ q) \<le> x / u"
      using xe upos by (simp add: pe field_simps)
    then have "2 ^ q \<le> round_even (x / u)"
      by (rule round_even_ge_int)
    then have "of_int (2 ^ q) * u \<le> of_int (round_even (x / u)) * u"
      using upos by (simp only: mult_le_cancel_right_pos of_int_le_iff)
    then have "pow2 e \<le> ieee_round p emin x"
      by (simp add: r pe)
    moreover have "pow2 (m + int p) \<le> pow2 e"
      using me by (simp add: pow2_power_int power_int_increasing)
    ultimately show ?thesis
      using assms(3) by linarith
  qed
qed


subsection \<open>The DAC code of a \<open>float\<close>\<close>

lemma round_even_between:
  assumes "of_int k < t" and "t < of_int k + 1"
  shows "round_even t = k \<or> round_even t = k + 1"
proof -
  from assms have "\<lfloor>t\<rfloor> = k" by linarith
  then show ?thesis
    by (auto simp: round_even_def Let_def)
qed

lemma pow2_values: "pow2 (- 22) = 1 / 4194304" "pow2 (- 45) = 1 / 35184372088832"
  "pow2 1 = 2" "pow2 2 = 4" "pow2 8 = 256" "pow2 31 = 2147483648"
  by (simp_all add: pow2_def)

lemma f32_below_3_3:
  assumes "f32 w \<le> 3715469692580659 / 1125899906842624"
  shows "f32 w \<le> 13841203 / 4194304"
proof -
  consider "w \<le> 0" | "0 < w" "w \<le> 13841203 / 4194304" | "13841204 / 4194304 \<le> w"
    | "13841203 / 4194304 < w" "w < 13841204 / 4194304"
    by linarith
  then show ?thesis
  proof cases
    case 1
    then have "f32 w \<le> 0" by (simp add: f32_def ieee_round_nonpos)
    then show ?thesis by simp
  next
    case 2
    have "ieee_round 24 (- 126) w \<le> of_int 13841203 * pow2 (- 22)"
      using 2 by (intro ieee_round_le_grid) (simp_all add: pow2_values)
    then show ?thesis by (simp add: f32_def pow2_values)
  next
    case 3
    have "of_int 13841204 * pow2 (- 22) \<le> ieee_round 24 (- 126) w"
      using 3 by (intro ieee_round_ge_grid) (simp_all add: pow2_values)
    with assms show ?thesis by (simp add: f32_def pow2_values)
  next
    case 4
    then have pos: "0 < w" by simp
    have "ilog2 w \<le> 1"
      using pos 4 by (intro ilog2_le) (simp_all add: pow2_values)
    moreover have "1 \<le> ilog2 w"
      using pos 4 by (intro ilog2_ge) (simp_all add: pow2_values)
    ultimately have e: "ilog2 w = 1" by simp
    have r: "f32 w = of_int (round_even (w * 4194304)) / 4194304"
      using pos by (simp add: f32_def ieee_round_def Let_def e pow2_values)
    have "round_even (w * 4194304) = 13841203 \<or> round_even (w * 4194304) = 13841203 + 1"
      using 4 by (intro round_even_between) simp_all
    with assms show ?thesis
      unfolding r by auto
  qed
qed

lemma clampVoltage_range:
  "0 \<le> clampVoltage (f32 w) \<and> clampVoltage (f32 w) \<le> 13841203 / 4194304"
proof (cases "f32 w > f64 (33 / 10)")
  case True
  then have "clampVoltage (f32 w) = 13841203 / 4194304"
    by (simp add: clampVoltage_def f32_3_3)
  then show ?thesis by simp
next
  case False
  then have "f32 w \<le> 3715469692580659 / 1125899906842624"
    by (simp add: f64_3_3)
  then have "f32 w \<le> 13841203 / 4194304"
    by (rule f32_below_3_3)
  moreover have "clampVoltage (f32 w) = (if f32 w < 0 then 0 else f32 w)"
    using False by (simp add: clampVoltage_def)
  ultimately show ?thesis by simp
qed

lemma dacValue_le_254:
  assumes "0 \<le> c" and "c \<le> 13841203 / 4194304"
  shows "unat (dacValue c) \<le> 254"
proof -
  define x where "x = f64 (c * 255)"
  define q where "q = f64 (x / (3715469692580659 / 1125899906842624))"
  have x0: "0 \<le> x"
    using assms(1) by (simp add: x_def f64_def ieee_round_nonneg)
  have "ieee_round 53 (- 1022) (c * 255) \<le> of_int 3529506765 * pow2 (- 22)"
    using assms by (intro ieee_round_le_grid) (simp_all add: pow2_values)
  then have x1: "x \<le> 3529506765 / 4194304"
    by (simp add: x_def f64_def pow2_values)
  let ?y = "x / (3715469692580659 / 1125899906842624)"
  have y0: "0 \<le> ?y" using x0 by simp
  have y1: "?y \<le> 8972014882652159 / 35184372088832"
    using x1 by (simp add: field_simps)
  have q0: "0 \<le> q"
    using y0 by (simp add: q_def f64_def ieee_round_nonneg)
  have "ieee_round 53 (- 1022) ?y \<le> of_int 8972014882652159 * pow2 (- 45)"
    using y0 y1 by (intro ieee_round_le_grid) (simp_all add: pow2_values)
  then have "q < 255"
    by (simp add: q_def f64_def pow2_values)
  then have fl: "\<lfloor>q\<rfloor> < 255" by (simp add: floor_less_iff)
  have f0: "0 \<le> \<lfloor>q\<rfloor>" using q0 by simp
  have "dacValue c = word_of_int \<lfloor>q\<rfloor>"
    using q0 by (simp add: dacValue_def to_u8_def f64_3_3 q_def x_def)
  then have "unat (dacValue c) = nat (\<lfloor>q\<rfloor> mod 256)"
    by (simp add: unat_eq_nat_uint uint_word_of_int)
  moreover have "\<lfloor>q\<rfloor> mod 256 = \<lfloor>q\<rfloor>"
    using f0 fl by (intro mod_pos_pos_trivial) linarith+
  ultimately have "int (unat (dacValue c)) = \<lfloor>q\<rfloor>"
    using f0 by (simp only: int_nat_eq if_True)
  with fl show ?thesis by linarith
qed

lemma f32_3_2: "f32 (3 / 2) = 3 / 2"
  by (simp add: float_eval)

subsection \<open>Rounding errors in the test of a replay\<close>

text \<open>
  Each rounding moves a value by at most its relative precision, \<open>2\<^sup>-\<^sup>2\<^sup>4\<close> for a
  \<open>float\<close> and \<open>2\<^sup>-\<^sup>5\<^sup>3\<close> for a \<open>double\<close>, plus a constant for the subnormal range. The
  errors of the two durations, of their difference and of the product add up to less
  than \<open>(r + X) / 2\<^sup>2\<^sup>1\<close>, so the test on the rounded values decides as the exact test
  does whenever the exact discrepancy is further than that from 20 % of the expected
  duration.
\<close>

lemma ieee_round_rel_error:
  "\<bar>ieee_round p emin x - x\<bar> \<le> \<bar>x\<bar> * pow2 (- int p) + pow2 (emin - int p)"
proof (cases "x = 0")
  case True
  then show ?thesis
    using pow2_pos [of "emin - int p"] by (simp add: ieee_round_def)
next
  case False
  then have pos: "0 < \<bar>x\<bar>" by simp
  have half: "pow2 (k + 1) / 2 = pow2 k" for k
    by (simp add: pow2_power_int power_int_add)
  have e: "\<bar>ieee_round p emin x - x\<bar> \<le> pow2 (max (ilog2 \<bar>x\<bar>) emin - int p)"
    using ieee_round_error [of p emin x] half [of "max (ilog2 \<bar>x\<bar>) emin - int p"]
    by (simp add: algebra_simps)
  show ?thesis
  proof (cases "emin \<le> ilog2 \<bar>x\<bar>")
    case True
    have "pow2 (ilog2 \<bar>x\<bar> - int p) = pow2 (ilog2 \<bar>x\<bar>) * pow2 (- int p)"
      by (simp add: pow2_power_int power_int_add [symmetric])
    also have "\<dots> \<le> \<bar>x\<bar> * pow2 (- int p)"
      using ilog2_bounds [OF pos] pow2_pos [of "- int p"]
      by (intro mult_right_mono) simp_all
    finally show ?thesis
      using e True pow2_pos [of "emin - int p"] by (simp add: max_def)
  next
    case False
    then have "max (ilog2 \<bar>x\<bar>) emin = emin" by simp
    with e pow2_pos [of "- int p"] show ?thesis
      by (simp add: add_increasing)
  qed
qed

lemma f32_error: "\<bar>f32 x - x\<bar> \<le> \<bar>x\<bar> / 16777216 + 1 / 2 ^ 150"
proof -
  have a: "pow2 (- 24) = 1 / 16777216" "pow2 (- 150) = 1 / 2 ^ 150"
    by (simp_all add: pow2_def)
  have "\<bar>ieee_round 24 (- 126) x - x\<bar> \<le> \<bar>x\<bar> * pow2 (- 24) + pow2 (- 150)"
    using ieee_round_rel_error [of 24 "- 126" x] by simp
  then show ?thesis
    unfolding a f32_def by simp
qed

lemma f64_error: "\<bar>f64 x - x\<bar> \<le> \<bar>x\<bar> / 9007199254740992 + 1 / 2 ^ 150"
proof -
  have a: "pow2 (- 53) = 1 / 9007199254740992"
    by (simp add: pow2_def)
  have "pow2 (- 1075) \<le> pow2 (- 150)"
    by (simp add: pow2_power_int power_int_increasing)
  also have "pow2 (- 150) = 1 / 2 ^ 150"
    by (simp add: pow2_def)
  finally have b: "pow2 (- 1075) \<le> 1 / 2 ^ 150" .
  have "\<bar>ieee_round 53 (- 1022) x - x\<bar> \<le> \<bar>x\<bar> * pow2 (- 53) + pow2 (- 1075)"
    using ieee_round_rel_error [of 53 "- 1022" x] by simp
  with b have "\<bar>ieee_round 53 (- 1022) x - x\<bar> \<le> \<bar>x\<bar> * pow2 (- 53) + 1 / 2 ^ 150"
    by linarith
  then show ?thesis
    unfolding a f64_def by simp
qed

lemma f32_of_int:
  assumes "0 \<le> k" and "k < 16777216"
  shows "f32 (of_int k) = of_int k"
proof (cases "k = 0")
  case True
  then show ?thesis by (simp add: f32_def ieee_round_def)
next
  case False
  with assms have pos: "0 < k" by simp
  have p: "pow2 0 = 1" "pow2 24 = 16777216"
    by (simp_all add: pow2_def)
  have "ieee_round 24 (- 126) (of_int k) \<le> of_int k * pow2 0"
    using assms by (intro ieee_round_le_grid) (simp_all add: p)
  moreover have "of_int k * pow2 0 \<le> ieee_round 24 (- 126) (of_int k)"
    using assms pos by (intro ieee_round_ge_grid) (simp_all add: p)
  ultimately show ?thesis
    by (simp add: f32_def p)
qed


lemma f64_nonneg: "0 \<le> x \<Longrightarrow> 0 \<le> f64 x"
  by (simp add: f64_def ieee_round_nonneg)

lemma tiny_value: "(1 :: real) / 2 ^ 150 = 1 / 1427247692705959881058285969449495136382746624"
  "(1 :: real) / 2 ^ 148 = 1 / 356811923176489970264571492362373784095686656"
  "(1 :: real) / 2 ^ 100 = 1 / 1267650600228229401496703205376"
  by simp_all

lemma double_round_error:
  assumes "0 \<le> x"
  shows "\<bar>f32 (f64 x) - x\<bar> \<le> x / 8388608 + 1 / 2 ^ 148"
proof -
  have y0: "0 \<le> f64 x" using assms by (rule f64_nonneg)
  have a: "\<bar>f64 x - x\<bar> \<le> x / 9007199254740992 + 1 / 2 ^ 150"
    using f64_error [of x] assms by simp
  have b: "\<bar>f32 (f64 x) - f64 x\<bar> \<le> f64 x / 16777216 + 1 / 2 ^ 150"
    using f32_error [of "f64 x"] y0 by simp
  show ?thesis
    using a b assms y0 unfolding tiny_value by linarith
qed

lemma single_round_error:
  assumes "0 \<le> x"
  shows "\<bar>f32 x - x\<bar> \<le> x / 8388608 + 1 / 2 ^ 148"
  using f32_error [of x] assms unfolding tiny_value by simp

lemma discrepancy_test_tolerance:
  fixes r X R E :: real
  assumes "0 \<le> r" and "0 \<le> X" and "0 \<le> R" and "0 \<le> E"
    and hR: "\<bar>R - r\<bar> \<le> r / 8388608 + 1 / 2 ^ 148"
    and hE: "\<bar>E - X\<bar> \<le> X / 8388608 + 1 / 2 ^ 148"
  shows "X / 5 + ((r + X) / 2 ^ 21 + 1 / 2 ^ 100) < \<bar>r - X\<bar>
           \<Longrightarrow> f64 (f64 (1 / 5) * E) < \<bar>f32 (R - E)\<bar>"
    and "\<bar>r - X\<bar> < X / 5 - ((r + X) / 2 ^ 21 + 1 / 2 ^ 100)
           \<Longrightarrow> \<not> f64 (f64 (1 / 5) * E) < \<bar>f32 (R - E)\<bar>"
proof -
  define P where "P = 3602879701896397 / 18014398509481984 * E"
  define T where "T = f64 P"
  define a where "a = \<bar>r - X\<bar>"
  define b where "b = \<bar>R - E\<bar>"
  define c where "c = \<bar>f32 (R - E)\<bar>"
  define t where "t = (1 :: real) / 2 ^ 150"
  have k: "(1 :: real) / 2 ^ 150 = t" "(1 :: real) / 2 ^ 148 = 4 * t" "(2 :: real) / 2 ^ 148 = 8 * t"
    "(1 :: real) / 2 ^ 100 = 1125899906842624 * t" "(2 :: real) ^ 21 = 2097152"
    by (simp_all add: t_def)
  have t0: "0 < t" by (simp add: t_def)
  note hR = hR [unfolded k] and hE = hE [unfolded k]
  have q: "f64 (1 / 5) = 3602879701896397 / 18014398509481984"
    by (rule duration_values)
  have T: "f64 (f64 (1 / 5) * E) = T"
    by (simp add: q T_def P_def)
  have P0: "0 \<le> P" using assms(4) by (simp add: P_def)
  have "\<bar>T - P\<bar> \<le> \<bar>P\<bar> / 9007199254740992 + t"
    unfolding T_def using f64_error [of P] by (simp only: k)
  then have T1: "T \<le> P + P / 9007199254740992 + t"
    and T2: "P - P / 9007199254740992 - t \<le> T"
    using P0 by linarith+
  have "\<bar>f32 (R - E) - (R - E)\<bar> \<le> \<bar>R - E\<bar> / 16777216 + t"
    using f32_error [of "R - E"] by (simp only: k)
  then have c1: "b - b / 16777216 - t \<le> c"
    and c2: "c \<le> b + b / 16777216 + t"
    unfolding b_def c_def by linarith+
  have "\<bar>(R - E) - (r - X)\<bar> \<le> (r + X) / 8388608 + 8 * t"
    using hR hE by argo
  then have b1: "a - ((r + X) / 8388608 + 8 * t) \<le> b"
    and b2: "b \<le> a + ((r + X) / 8388608 + 8 * t)"
    unfolding a_def b_def by argo+
  have E1: "E \<le> X + X / 8388608 + 4 * t"
    and E2: "X - X / 8388608 - 4 * t \<le> E"
    using hE by linarith+
  have P1: "P \<le> 3602879701896397 / 18014398509481984 * (X + X / 8388608 + 4 * t)"
    unfolding P_def using E1 by argo
  have P2: "3602879701896397 / 18014398509481984 * (X - X / 8388608 - 4 * t) \<le> P"
    unfolding P_def using E2 by argo
  have a0: "0 \<le> a" and b0: "0 \<le> b"
    by (simp_all add: a_def b_def)
  {
    assume "X / 5 + ((r + X) / 2 ^ 21 + 1 / 2 ^ 100) < \<bar>r - X\<bar>"
    then have h: "X / 5 + ((r + X) / 2097152 + 1125899906842624 * t) < a"
      unfolding k a_def .
    have "T < c"
      using h T1 c1 b1 P1 assms(1,2) a0 b0 t0 by argo
    then show "f64 (f64 (1 / 5) * E) < \<bar>f32 (R - E)\<bar>"
      by (simp add: T c_def)
  next
    assume "\<bar>r - X\<bar> < X / 5 - ((r + X) / 2 ^ 21 + 1 / 2 ^ 100)"
    then have h: "a < X / 5 - ((r + X) / 2097152 + 1125899906842624 * t)"
      unfolding k a_def .
    have "\<not> T < c"
      using h T2 c2 b2 P2 assms(1,2) a0 b0 t0 by argo
    then show "\<not> f64 (f64 (1 / 5) * E) < \<bar>f32 (R - E)\<bar>"
      by (simp add: T c_def)
  }
qed


lemma rounded_duration:
  assumes "0 \<le> x"
  shows "0 \<le> f32 (f64 x)" and "\<bar>f32 (f64 x) - x\<bar> \<le> x / 8388608 + 1 / 2 ^ 148"
proof -
  show "0 \<le> f32 (f64 x)"
    by (intro f32_nonneg f64_nonneg assms)
  show "\<bar>f32 (f64 x) - x\<bar> \<le> x / 8388608 + 1 / 2 ^ 148"
    by (rule double_round_error [OF assms])
qed

lemma millis_seconds_nonneg: "0 \<le> real (unat (w :: u32)) / 1000"
proof -
  have "0 \<le> real (unat w)" by (rule of_nat_0_le_iff)
  then show ?thesis by (rule divide_nonneg_nonneg) simp
qed

lemma expectedDuration_error:
  assumes "0 \<le> sampleCount s" and "sampleCount s \<le> MAX_SAMPLES"
    and "1 \<le> sampleRate s" and "sampleRate s \<le> 10000"
    and "X = (if recordingStartTime s < recordingEndTime s
              then real (unat (recordingEndTime s - recordingStartTime s)) / 1000
              else of_int (sampleCount s) / of_int (sampleRate s))"
  shows "0 \<le> X" and "0 \<le> expectedDuration s"
    and "\<bar>expectedDuration s - X\<bar> \<le> X / 8388608 + 1 / 2 ^ 148"
proof -
  have c: "f32 (of_int (sampleCount s)) = of_int (sampleCount s)"
    using assms(1,2) by (intro f32_of_int) (simp_all add: MAX_SAMPLES_def)
  have n: "f32 (of_int (sampleRate s)) = of_int (sampleRate s)"
    using assms(3,4) by (intro f32_of_int) simp_all
  show x0: "0 \<le> X"
    using assms(1,3) millis_seconds_nonneg [of "recordingEndTime s - recordingStartTime s"]
    by (simp add: assms(5))
  show "0 \<le> expectedDuration s"
    unfolding expectedDuration_def c n
    using assms(1,3) millis_seconds_nonneg [of "recordingEndTime s - recordingStartTime s"]
    by (auto intro!: f32_nonneg f64_nonneg)
  show "\<bar>expectedDuration s - X\<bar> \<le> X / 8388608 + 1 / 2 ^ 148"
  proof (cases "recordingStartTime s < recordingEndTime s")
    case True
    then have "expectedDuration s = f32 (f64 X)"
      by (simp add: expectedDuration_def assms(5))
    then show ?thesis
      using double_round_error [OF x0] by simp
  next
    case False
    then have "expectedDuration s = f32 X"
      by (simp add: expectedDuration_def assms(5) c n)
    then show ?thesis
      using single_round_error [OF x0] by simp
  qed
qed

subsection \<open>The \<open>clear\<close> command\<close>

text \<open>
  C10. A line that starts with \<open>clear\<close> (after trimming and lower-casing) sets
  \<open>sampleCount\<close> to 0 and prints one line, whether or not a recording is running; every
  other global (the recording flag, the rate, the calibration offset, the oversample
  count, the time stamps, the buffer) keeps its value.
\<close>
theorem clear_resets_count_only:
  assumes "serialLine e = Some l" and "startsWith (toLowerCase (trim l)) ''clear''"
  shows "processSerialCommands e s =
           Returned (s\<lparr>sampleCount := 0, serialOut := serialOut s @ [BufferCleared]\<rparr>)"
  using cmd_clear [OF assms] by (simp add: println_def)

theorem clear_resets_count_only_witness:
  "processSerialCommands (quiet\<lparr>serialLine := Some '' Clear''\<rparr>) (initial\<lparr>sampleCount := 7, recording := True\<rparr>)
     = Returned (initial\<lparr>sampleCount := 0, recording := True, serialOut := [BufferCleared]\<rparr>)"
proof -
  have l: "toLowerCase (trim '' Clear'') = ''clear''" by code_simp
  have "startsWith (toLowerCase (trim '' Clear'')) ''clear''" unfolding l by simp
  from clear_resets_count_only [of "quiet\<lparr>serialLine := Some '' Clear''\<rparr>" "'' Clear''", OF _ this]
  show ?thesis by (simp add: initial_def)
qed

subsection \<open>Precondition violations\<close>

text \<open>
  C4. \<open>stop\<close> while not recording, \<open>start\<close> while recording, and \<open>replay\<close> or
  \<open>show\<close> with an empty buffer each print exactly one line and change nothing else:
  the state returned is the state before with that one line appended to the serial output.
  In particular a replay of an empty buffer writes nothing to the DAC.
\<close>
theorem precondition_violations:
  assumes "serialLine e = Some l" and "c = toLowerCase (trim l)"
  shows "(startsWith c ''stop'' \<and> \<not> recording s \<longrightarrow>
            processSerialCommands e s = Returned (s\<lparr>serialOut := serialOut s @ [NotRecording]\<rparr>))
       \<and> ((startsWith c ''start'' \<or> startsWith c ''begin'') \<and> recording s \<longrightarrow>
            processSerialCommands e s = Returned (s\<lparr>serialOut := serialOut s @ [AlreadyRecording]\<rparr>))
       \<and> ((startsWith c ''replay'' \<or> startsWith c ''replicate'') \<and> sampleCount s = 0 \<longrightarrow>
            processSerialCommands e s = Returned (s\<lparr>serialOut := serialOut s @ [NoDataToReplay]\<rparr>))
       \<and> ((startsWith c ''show'' \<or> startsWith c ''print'') \<and> sampleCount s = 0 \<longrightarrow>
            processSerialCommands e s = Returned (s\<lparr>serialOut := serialOut s @ [NoDataRecorded]\<rparr>))"
  using assms
  by (auto simp: cmd_stop cmd_start cmd_replay cmd_show stopRecording_def startRecording_def
      replayVoltages_def printData_def println_def)

theorem precondition_violations_witness:
  "processSerialCommands (quiet\<lparr>serialLine := Some ''stop''\<rparr>) initial
     = Returned (initial\<lparr>serialOut := [NotRecording]\<rparr>)
   \<and> processSerialCommands (quiet\<lparr>serialLine := Some ''start''\<rparr>) (initial\<lparr>recording := True\<rparr>)
     = Returned (initial\<lparr>recording := True, serialOut := [AlreadyRecording]\<rparr>)
   \<and> processSerialCommands (quiet\<lparr>serialLine := Some ''replay''\<rparr>) initial
     = Returned (initial\<lparr>serialOut := [NoDataToReplay]\<rparr>)
   \<and> processSerialCommands (quiet\<lparr>serialLine := Some ''show''\<rparr>) initial
     = Returned (initial\<lparr>serialOut := [NoDataRecorded]\<rparr>)"
proof -
  have c: "''stop'' = toLowerCase (trim ''stop'')" "''start'' = toLowerCase (trim ''start'')"
    "''replay'' = toLowerCase (trim ''replay'')" "''show'' = toLowerCase (trim ''show'')"
    by code_simp+
  have i: "\<not> recording initial" "sampleCount initial = 0" "serialOut initial = []"
    by (simp_all add: initial_def)
  show ?thesis
    using precondition_violations [of "quiet\<lparr>serialLine := Some ''stop''\<rparr>" "''stop''" "''stop''" initial, OF _ c(1)]
      precondition_violations [of "quiet\<lparr>serialLine := Some ''start''\<rparr>" "''start''" "''start''"
        "initial\<lparr>recording := True\<rparr>", OF _ c(2)]
      precondition_violations [of "quiet\<lparr>serialLine := Some ''replay''\<rparr>" "''replay''" "''replay''" initial, OF _ c(3)]
      precondition_violations [of "quiet\<lparr>serialLine := Some ''show''\<rparr>" "''show''" "''show''" initial, OF _ c(4)]
      i
    by simp
qed

subsection \<open>Buffer occupancy\<close>

text \<open>
  C1. After \<open>setup()\<close> and any sequence of passes of \<open>loop()\<close>, whatever the commands
  and the hardware readings, \<open>0 \<le> sampleCount \<le> MAX_SAMPLES\<close>. A sampling step that
  finds \<open>sampleCount = MAX_SAMPLES\<close> changes nothing, so it appends no sample. The step
  that brings \<open>sampleCount\<close> to \<open>MAX_SAMPLES\<close> started in the recording state and ends
  outside it, with \<open>recordingEndTime\<close> set to the clock reading of \<open>stopRecording\<close>.
\<close>

theorem buffer_never_overflows:
  "0 \<le> sampleCount (final (run es (setup_sketch e0 initial)))
   \<and> sampleCount (final (run es (setup_sketch e0 initial))) \<le> MAX_SAMPLES
   \<and> (sampleCount s = MAX_SAMPLES \<longrightarrow> sampleStep e s = s)
   \<and> (sampleCount s < MAX_SAMPLES \<and> sampleCount (sampleStep e s) = MAX_SAMPLES \<longrightarrow>
        recording s \<and> \<not> recording (sampleStep e s)
        \<and> recordingEndTime (sampleStep e s) = millisFull e)"
proof -
  have "wellformed (final (run es (setup_sketch e0 initial)))"
    by (rule wellformed_run [OF wellformed_setup])
  then show ?thesis
    using sampleStep_reaches_full [of s e]
    by (simp add: wellformed_def sampleStep_full)
qed

theorem buffer_never_overflows_witness:
  "sampleStep quiet (initial\<lparr>sampleCount := MAX_SAMPLES\<rparr>) = initial\<lparr>sampleCount := MAX_SAMPLES\<rparr>
   \<and> \<not> recording (sampleStep (quiet\<lparr>millisTick := 10, millisFull := 11\<rparr>)
          (initial\<lparr>recording := True, sampleCount := 4999\<rparr>))
   \<and> recordingEndTime (sampleStep (quiet\<lparr>millisTick := 10, millisFull := 11\<rparr>)
          (initial\<lparr>recording := True, sampleCount := 4999\<rparr>)) = 11"
proof -
  have "sampleCount (sampleStep (quiet\<lparr>millisTick := 10, millisFull := 11\<rparr>)
          (initial\<lparr>recording := True, sampleCount := 4999\<rparr>)) = MAX_SAMPLES"
    by (simp add: sampleStep_def Let_def MAX_SAMPLES_def cdiv_pos cmod_pos stopRecording_def)
  then show ?thesis
    using buffer_never_overflows [of "[]" quiet "initial\<lparr>sampleCount := MAX_SAMPLES\<rparr>" quiet]
      buffer_never_overflows [of "[]" quiet "initial\<lparr>recording := True, sampleCount := 4999\<rparr>"
        "quiet\<lparr>millisTick := 10, millisFull := 11\<rparr>"]
    by (simp add: MAX_SAMPLES_def)
qed

subsection \<open>The sampling period\<close>



subsection \<open>Starting a recording\<close>

text \<open>
  C5. A line that starts with \<open>start\<close> or \<open>begin\<close>, received while not recording, sets
  \<open>sampleCount\<close> to 0 whatever it was, sets the recording flag, stores the clock reading
  in \<open>recordingStartTime\<close> (and \<open>lastSampleTime\<close>) and prints two lines; the pass of
  \<open>loop()\<close> that receives it goes on with the sampling step from that state. In a
  recording state with \<open>sampleCount = 0\<close> a sampling step that is due stores its reading
  at index 0 and makes \<open>sampleCount\<close> 1, and a step that is not due stores nothing and
  leaves \<open>sampleCount\<close> at 0: the first sample of a session goes to index 0.
\<close>

theorem start_resets_occupancy:
  assumes "serialLine e = Some l" and "c = toLowerCase (trim l)"
    and "startsWith c ''start'' \<or> startsWith c ''begin''" and "\<not> recording s"
  shows "processSerialCommands e s =
           Returned (s\<lparr>sampleCount := 0, recording := True, lastSampleTime := millisCmd e,
             recordingStartTime := millisCmd e,
             serialOut := serialOut s @ [StartedRecording (sampleRate s), TypeStop]\<rparr>)
       \<and> loop e s =
           Returned (sampleStep e (s\<lparr>sampleCount := 0, recording := True,
             lastSampleTime := millisCmd e, recordingStartTime := millisCmd e,
             serialOut := serialOut s @ [StartedRecording (sampleRate s), TypeStop]\<rparr>))
       \<and> (\<forall>e' t. recording t \<and> sampleCount t = 0 \<longrightarrow>
             (if word_of_int (cdiv 1000 (sampleRate t)) \<le> millisTick e' - lastSampleTime t
              then sampleCount (sampleStep e' t) = 1
                 \<and> voltageBuffer (sampleStep e' t)
                     = (voltageBuffer t)[0 := readVoltageHighPrecision e' (adcTick e') t]
              else sampleCount (sampleStep e' t) = 0
                 \<and> voltageBuffer (sampleStep e' t) = voltageBuffer t))"
proof -
  have p: "processSerialCommands e s = Returned (startRecording (millisCmd e) s)"
    using assms(1-3) by (simp add: cmd_start)
  have st: "startRecording (millisCmd e) s =
      s\<lparr>sampleCount := 0, recording := True, lastSampleTime := millisCmd e,
        recordingStartTime := millisCmd e,
        serialOut := serialOut s @ [StartedRecording (sampleRate s), TypeStop]\<rparr>"
    using assms(4) by (simp add: startRecording_def println_def)
  have due: "sampleCount (sampleStep e' t) = 1
      \<and> voltageBuffer (sampleStep e' t)
          = (voltageBuffer t)[0 := readVoltageHighPrecision e' (adcTick e') t]"
    if "recording t" "sampleCount t = 0"
      "word_of_int (cdiv 1000 (sampleRate t)) \<le> millisTick e' - lastSampleTime t" for e' t
    using that sampleStep_due [of t e'] by (simp add: MAX_SAMPLES_def)
  have notdue: "sampleCount (sampleStep e' t) = 0
      \<and> voltageBuffer (sampleStep e' t) = voltageBuffer t"
    if "sampleCount t = 0"
      "\<not> word_of_int (cdiv 1000 (sampleRate t)) \<le> millisTick e' - lastSampleTime t" for e' t
    using that sampleStep_not_due [of t e'] by simp
  show ?thesis
    using due notdue by (simp add: p st loop_def)
qed

theorem start_resets_occupancy_witness:
  "processSerialCommands
      (quiet\<lparr>serialLine := Some ''START'', millisCmd := 42, millisTick := 60,
         rawToVoltage := (\<lambda>r. 1500)\<rparr>)
      (initial\<lparr>sampleCount := 17\<rparr>)
     = Returned (initial\<lparr>sampleCount := 0, recording := True, lastSampleTime := 42,
         recordingStartTime := 42, serialOut := [StartedRecording 100, TypeStop]\<rparr>)
   \<and> sampleCount (final (loop
        (quiet\<lparr>serialLine := Some ''START'', millisCmd := 42, millisTick := 60,
           rawToVoltage := (\<lambda>r. 1500)\<rparr>)
        (initial\<lparr>sampleCount := 17\<rparr>))) = 1
   \<and> voltageBuffer (final (loop
        (quiet\<lparr>serialLine := Some ''START'', millisCmd := 42, millisTick := 60,
           rawToVoltage := (\<lambda>r. 1500)\<rparr>)
        (initial\<lparr>sampleCount := 17\<rparr>))) = (voltageBuffer initial)[0 := 3 / 2]"
proof -
  let ?E = "quiet\<lparr>serialLine := Some ''START'', millisCmd := 42, millisTick := 60,
         rawToVoltage := (\<lambda>r. 1500)\<rparr>"
  let ?S0 = "initial\<lparr>sampleCount := 0, recording := True, lastSampleTime := 42,
         recordingStartTime := 42, serialOut := [StartedRecording 100, TypeStop]\<rparr>"
  have c: "''start'' = toLowerCase (trim ''START'')" by code_simp
  note t = start_resets_occupancy [of ?E "''START''" "''start''" "initial\<lparr>sampleCount := 17\<rparr>",
      OF _ c]
  have a: "processSerialCommands ?E (initial\<lparr>sampleCount := 17\<rparr>) = Returned ?S0"
    using t by simp
  have l: "loop ?E (initial\<lparr>sampleCount := 17\<rparr>) = Returned (sampleStep ?E ?S0)"
    using t by simp
  have "\<forall>e' t. recording t \<and> sampleCount t = 0 \<longrightarrow>
             (if word_of_int (cdiv 1000 (sampleRate t)) \<le> millisTick e' - lastSampleTime t
              then sampleCount (sampleStep e' t) = 1
                 \<and> voltageBuffer (sampleStep e' t)
                     = (voltageBuffer t)[0 := readVoltageHighPrecision e' (adcTick e') t]
              else sampleCount (sampleStep e' t) = 0
                 \<and> voltageBuffer (sampleStep e' t) = voltageBuffer t)"
    using t by simp
  note step = this [rule_format, of ?S0 ?E]
  have r: "readVoltageHighPrecision ?E (\<lambda>i. 0) ?S0 = 3 / 2"
    by (simp add: readVoltageHighPrecision_def duration_values f32_3_2)
  have d: "sampleCount (sampleStep ?E ?S0) = 1
      \<and> voltageBuffer (sampleStep ?E ?S0) = (voltageBuffer initial)[0 := 3 / 2]"
    using step by (simp add: cdiv_pos r)
  show ?thesis
    unfolding a l using d by simp
qed

subsection \<open>The \<open>rate\<close> command\<close>

text \<open>
  C3, as the code has it. For a line that starts with \<open>rate\<close>, let \<open>N\<close> be what
  \<open>toInt\<close> reads in the text after the fifth character. If \<open>1 \<le> N \<le> 10000\<close> the rate
  becomes \<open>N\<close>, one line reports it, a warning follows when \<open>N > 200\<close>, and \<open>status\<close>
  then prints \<open>N\<close>. Otherwise the rate keeps its value and the one line printed is the
  rejection. An argument without a leading integer reads as 0 and is rejected.
\<close>

theorem rate_command:
  assumes "serialLine e = Some l" and "c = toLowerCase (trim l)" and "startsWith c ''rate''"
    and "N = toInt (substring c 5)"
  shows "(1 \<le> N \<and> N \<le> 10000 \<longrightarrow>
            processSerialCommands e s =
              Returned (s\<lparr>sampleRate := N,
                serialOut := serialOut s @ (if N > 200 then [RateSet N, RateWarning] else [RateSet N])\<rparr>)
            \<and> StatusRate N \<in> set (serialOut (printStatus e' (final (processSerialCommands e s)))))
       \<and> (\<not> (1 \<le> N \<and> N \<le> 10000) \<longrightarrow>
            processSerialCommands e s = Returned (s\<lparr>serialOut := serialOut s @ [InvalidRate]\<rparr>))
       \<and> (noLeadingInteger (substring c 5) \<longrightarrow> N = 0)"
proof -
  have r: "processSerialCommands e s =
    (if N > 0 \<and> N \<le> 10000
        then Returned (if N > 200
               then println RateWarning (println (RateSet N) (s\<lparr>sampleRate := N\<rparr>))
               else println (RateSet N) (s\<lparr>sampleRate := N\<rparr>))
        else Returned (println InvalidRate s))"
    using cmd_rate [of e l s] assms by (simp add: Let_def)
  have "sampleRate (final (processSerialCommands e s)) = N" if "1 \<le> N" "N \<le> 10000"
    using that by (simp add: r)
  then have "StatusRate N \<in> set (serialOut (printStatus e' (final (processSerialCommands e s))))"
    if "1 \<le> N" "N \<le> 10000"
    using that status_reports_rate [of "final (processSerialCommands e s)" e'] by simp
  then show ?thesis
    using assms(4) by (auto simp: r println_def toInt_noLeadingInteger)
qed

theorem rate_command_witness:
  "processSerialCommands (quiet\<lparr>serialLine := Some ''rate 250''\<rparr>) initial
     = Returned (initial\<lparr>sampleRate := 250, serialOut := [RateSet 250, RateWarning]\<rparr>)
   \<and> processSerialCommands (quiet\<lparr>serialLine := Some ''rate 0''\<rparr>) initial
     = Returned (initial\<lparr>serialOut := [InvalidRate]\<rparr>)
   \<and> processSerialCommands (quiet\<lparr>serialLine := Some ''rate fast''\<rparr>) initial
     = Returned (initial\<lparr>serialOut := [InvalidRate]\<rparr>)"
proof -
  have c: "''rate 250'' = toLowerCase (trim ''rate 250'')" "''rate 0'' = toLowerCase (trim ''rate 0'')"
    "''rate fast'' = toLowerCase (trim ''rate fast'')"
    by code_simp+
  have n: "250 = toInt (substring ''rate 250'' 5)" "0 = toInt (substring ''rate 0'' 5)"
    by (simp_all add: toInt_def substring_def isspace_def isdigit_def saturate_long_def)
  have m: "noLeadingInteger (substring ''rate fast'' 5)"
    by (simp add: noLeadingInteger_def substring_def isspace_def isdigit_def)
  show ?thesis
    using rate_command [of "quiet\<lparr>serialLine := Some ''rate 250''\<rparr>" "''rate 250''" "''rate 250''" 250
        initial quiet, OF _ c(1) _ n(1)]
      rate_command [of "quiet\<lparr>serialLine := Some ''rate 0''\<rparr>" "''rate 0''" "''rate 0''" 0
        initial quiet, OF _ c(2) _ n(2)]
      rate_command [of "quiet\<lparr>serialLine := Some ''rate fast''\<rparr>" "''rate fast''" "''rate fast''"
        "toInt (substring ''rate fast'' 5)" initial quiet, OF _ c(3) _ refl]
      m
    by simp
qed

text \<open>
  Characters after the digits are not looked at: \<open>rate 50abc\<close> sets the rate to 50 and
  prints no rejection.
\<close>

theorem rate_trailing_text_accepted:
  "sampleRate initial = 100
   \<and> processSerialCommands (quiet\<lparr>serialLine := Some ''rate 50abc''\<rparr>) initial
       = Returned (initial\<lparr>sampleRate := 50, serialOut := [RateSet 50]\<rparr>)"
proof -
  have c: "toLowerCase (trim ''rate 50abc'') = ''rate 50abc''" by code_simp
  have n: "toInt (substring ''rate 50abc'' 5) = 50"
    by (simp add: toInt_def substring_def isspace_def isdigit_def saturate_long_def)
  show ?thesis
    by (simp add: processSerialCommands_def c n Let_def println_def)
qed

subsection \<open>The DAC code of a full-scale sample\<close>

text \<open>
  C2. The replay loop clamps a stored sample to \<open>[0, 3.3]\<close> and converts it with
  \<open>(uint8_t)(voltage * 255.0 / 3.3)\<close>. The clamp assigns the \<open>double\<close> constant 3.3 to a
  \<open>float\<close>, which holds 13841203 / 4194304, just below 3.3; the quotient computed in
  \<open>double\<close> is just below 255 and the cast drops the fraction. So a sample of 3.3 V or
  more (4.0 V, say) is written to the DAC as 254, not as the maximum code 255. The code
  of every \<open>float\<close> sample is within the range of the DAC, and at most 254.
\<close>

theorem full_scale_sample_gives_254:
  assumes "33 / 10 \<le> v"
    and "k < nat (sampleCount s)" and "voltageBuffer s ! k = v"
    and "\<forall>j. 0 \<le> j \<and> j < sampleCount s \<longrightarrow> \<not> replayAvail e (nat j)"
  shows "clampVoltage v = f32 (f64 (33 / 10)) \<and> dacValue (clampVoltage v) = 254
       \<and> dacOut (replayVoltages e s) ! (length (dacOut s) + k) = 254
       \<and> unat (dacValue (clampVoltage (f32 w))) \<le> 254"
proof -
  have "f64 (33 / 10) < v"
    using assms(1) by (simp add: f64_3_3)
  then have c: "clampVoltage v = 13841203 / 4194304"
    by (simp add: clampVoltage_def f32_3_3)
  have d: "dacValue (clampVoltage v) = 254"
    unfolding c by (rule dac_full_scale)
  from assms(2) have "sampleCount s \<noteq> 0" by auto
  from dacOut_replayVoltages [OF this assms(4)] assms(2,3) d
  have "dacOut (replayVoltages e s) ! (length (dacOut s) + k) = 254"
    by (simp add: nth_append)
  moreover have "unat (dacValue (clampVoltage (f32 w))) \<le> 254"
    using clampVoltage_range [of w] by (intro dacValue_le_254) simp_all
  ultimately show ?thesis
    using c d by (simp add: f32_3_3)
qed

theorem full_scale_sample_gives_254_witness:
  "dacValue (clampVoltage 4) = 254
   \<and> dacOut (replayVoltages quiet
        (initial\<lparr>voltageBuffer := (voltageBuffer initial)[0 := 4], sampleCount := 1\<rparr>)) ! 0 = 254"
proof -
  have h: "(33 / 10 :: real) \<le> 4" by simp
  have b: "(voltageBuffer initial)[0 := 4] ! 0 = 4"
    by (simp add: initial_def MAX_SAMPLES_def)
  have t: "clampVoltage 4 = f32 (f64 (33 / 10)) \<and> dacValue (clampVoltage 4) = 254
     \<and> dacOut (replayVoltages quiet
          (initial\<lparr>voltageBuffer := (voltageBuffer initial)[0 := 4], sampleCount := 1\<rparr>))
        ! (length (dacOut (initial\<lparr>voltageBuffer := (voltageBuffer initial)[0 := 4],
             sampleCount := 1\<rparr>)) + 0) = 254
     \<and> unat (dacValue (clampVoltage (f32 4))) \<le> 254"
    by (rule full_scale_sample_gives_254 [OF h]) (simp_all add: b)
  from t have "dacValue (clampVoltage 4) = 254" by blast
  moreover from t [THEN conjunct2, THEN conjunct2, THEN conjunct1]
  have "dacOut (replayVoltages quiet
        (initial\<lparr>voltageBuffer := (voltageBuffer initial)[0 := 4], sampleCount := 1\<rparr>)) ! 0 = 254"
    by simp
  ultimately show ?thesis by blast
qed

subsection \<open>Readings are not negative\<close>

text \<open>
  C8. \<open>readVoltageHighPrecision\<close> returns a value \<open>\<ge> 0\<close> for all raw ADC codes, every
  oversample count and every calibration offset. In every state that \<open>setup()\<close> followed
  by passes of \<open>loop()\<close> reaches, the samples at the indices below \<open>sampleCount\<close> are
  \<open>\<ge> 0\<close>, and when the buffer is not empty \<open>status\<close> ends with the line that carries
  the minimum, the maximum and the average of those samples, of which the minimum and
  the average are \<open>\<ge> 0\<close>.
\<close>

theorem readings_nonnegative:
  assumes "S = final (run es (setup_sketch e0 initial))"
  shows "0 \<le> readVoltageHighPrecision e adc s
       \<and> (\<forall>i < nat (sampleCount S). 0 \<le> voltageBuffer S ! i)
       \<and> (0 < sampleCount S \<longrightarrow>
            (\<exists>ms mn mx av d.
               serialOut (printStatus e S) = serialOut S @ ms @ [RecordedRange mn mx av, ActualDuration d]
               \<and> (mn, mx, av) = bufferStats S \<and> 0 \<le> mn \<and> 0 \<le> av))"
proof -
  have wf: "wellformed S"
    unfolding assms by (rule wellformed_run [OF wellformed_setup])
  then have "\<forall>i < nat (sampleCount S). 0 \<le> voltageBuffer S ! i"
    by (auto simp: wellformed_def intro!: nth_mem)
  moreover have "\<exists>ms mn mx av d.
               serialOut (printStatus e S) = serialOut S @ ms @ [RecordedRange mn mx av, ActualDuration d]
               \<and> (mn, mx, av) = bufferStats S \<and> 0 \<le> mn \<and> 0 \<le> av"
    if pos: "0 < sampleCount S"
  proof -
    obtain mn mx av where b: "bufferStats S = (mn, mx, av)"
      using prod_cases3 by blast
    from printStatus_range [OF pos b] bufferStats_nonneg [OF wf pos b] b show ?thesis
      by metis
  qed
  ultimately show ?thesis
    by (simp add: readVoltage_nonneg)
qed

theorem readings_nonnegative_witness:
  "0 \<le> readVoltageHighPrecision quiet (\<lambda>i. 0) initial
   \<and> 0 \<le> voltageBuffer (final (run [quiet\<lparr>serialLine := Some ''start'', millisTick := 10\<rparr>]
            (setup_sketch quiet initial))) ! 0
   \<and> (\<exists>ms mn mx av d.
        serialOut (printStatus quiet (final (run [quiet\<lparr>serialLine := Some ''start'', millisTick := 10\<rparr>]
            (setup_sketch quiet initial))))
          = serialOut (final (run [quiet\<lparr>serialLine := Some ''start'', millisTick := 10\<rparr>]
            (setup_sketch quiet initial))) @ ms @ [RecordedRange mn mx av, ActualDuration d]
        \<and> 0 \<le> mn \<and> 0 \<le> av)"
proof -
  let ?E = "quiet\<lparr>serialLine := Some ''start'', millisTick := 10\<rparr>"
  let ?S = "final (run [?E] (setup_sketch quiet initial))"
  have c: "startsWith (toLowerCase (trim ''start'')) ''start''" by code_simp
  have p: "processSerialCommands ?E (setup_sketch quiet initial)
      = Returned (startRecording 0 (setup_sketch quiet initial))"
    using cmd_start [of ?E "''start''" "setup_sketch quiet initial"] c by simp
  have "sampleCount (sampleStep ?E (startRecording 0 (setup_sketch quiet initial))) = 1"
    by (subst sampleStep_due) (simp_all add: startRecording_def MAX_SAMPLES_def cdiv_pos)
  then have n: "sampleCount ?S = 1"
    by (simp add: loop_def p)
  from readings_nonnegative [of ?S "[?E]" quiet quiet "\<lambda>i. 0" initial, OF refl] n
  show ?thesis
    by (simp del: run.simps) blast
qed

subsection \<open>The \<open>show\<close> command\<close>

text \<open>
  C9, as the code has it. With \<open>sampleCount > 0\<close>, and provided that a byte arrives on the
  serial port during every pause (there is one after each twentieth row that is not the
  last row), \<open>printData\<close> returns after printing three header lines, the table and two
  footer lines; the table, apart from the prompts of the pauses, is one row for each index
  \<open>0, \<dots>, sampleCount - 1\<close> in this order, and row \<open>i\<close> carries the index, the sample and
  the time \<open>i * 1000 / sampleRate\<close> as the floating-point expression
  \<open>(float)i * 1000.0 / sampleRate\<close> computes it. The globals are unchanged.
\<close>

theorem show_prints_rows:
  assumes "0 < sampleCount s"
    and "\<forall>j. 0 \<le> j \<and> pauseAfter (sampleCount s) j \<longrightarrow> (\<exists>k. pageAvail e (nat j) k)"
  shows "\<exists>body. printData e s = Returned (s\<lparr>serialOut := serialOut s
             @ [PrintingSamples (sampleCount s), TableHeader, TableRule] @ body
             @ [TableRule, TotalSamples (sampleCount s)]\<rparr>)
         \<and> filter (\<lambda>m. m \<noteq> PressAnyKey) body
             = map (\<lambda>j. Row (int j) (voltageBuffer s ! j) (rowTimeMs (sampleRate s) (int j)))
                 [0 ..< nat (sampleCount s)]
         \<and> set body \<subseteq> insert PressAnyKey
             (set (map (\<lambda>j. Row (int j) (voltageBuffer s ! j) (rowTimeMs (sampleRate s) (int j)))
                 [0 ..< nat (sampleCount s)]))"
proof -
  let ?body = "tableBody (voltageBuffer s) (sampleRate s) (sampleCount s) 0 (nat (sampleCount s))"
  have f: "filter (\<lambda>m. m \<noteq> PressAnyKey) ?body
      = map (\<lambda>j. Row (int j) (voltageBuffer s ! j) (rowTimeMs (sampleRate s) (int j)))
          [0 ..< nat (sampleCount s)]"
    by (rule tableBody_rows)
  have "set ?body \<subseteq> insert PressAnyKey (set (filter (\<lambda>m. m \<noteq> PressAnyKey) ?body))"
    by auto
  with f printData_returns [OF assms] show ?thesis
    by (intro exI [of _ ?body]) simp
qed

text \<open>Ten samples at 50 Hz: no pause, and the times are 0, 20, \<dots>, 180.\<close>

theorem show_prints_rows_witness:
  "\<exists>body. printData quiet (initial\<lparr>sampleCount := 10, sampleRate := 50\<rparr>)
      = Returned (initial\<lparr>sampleCount := 10, sampleRate := 50,
          serialOut := [PrintingSamples 10, TableHeader, TableRule] @ body
             @ [TableRule, TotalSamples 10]\<rparr>)
    \<and> filter (\<lambda>m. m \<noteq> PressAnyKey) body
        = [Row 0 0 0, Row 1 0 20, Row 2 0 40, Row 3 0 60, Row 4 0 80,
           Row 5 0 100, Row 6 0 120, Row 7 0 140, Row 8 0 160, Row 9 0 180]"
proof -
  have np: "\<forall>j. 0 \<le> j \<and> pauseAfter (sampleCount (initial\<lparr>sampleCount := 10, sampleRate := 50\<rparr>)) j
      \<longrightarrow> (\<exists>k. pageAvail quiet (nat j) k)"
    by (auto simp: pauseAfter_def cmod_pos)
  have pos: "0 < sampleCount (initial\<lparr>sampleCount := 10, sampleRate := 50\<rparr>)"
    by simp
  from show_prints_rows [OF pos np] show ?thesis
    by (simp add: upt_10 rowTimeMs_50 initial_buffer_nth) blast
qed

text \<open>
  Without a byte the first pause never ends: with 21 samples and a silent serial port
  \<open>printData\<close> stays in the wait loop after row 19, and the row of index 20 is not printed.
\<close>

theorem show_blocks_at_first_pause:
  "printData quiet (initial\<lparr>sampleCount := 21\<rparr>)
     = Blocked (initial\<lparr>sampleCount := 21,
         serialOut := [PrintingSamples 21, TableHeader, TableRule]
           @ tableBody (voltageBuffer initial) 100 21 0 20\<rparr>)
   \<and> Row 20 (voltageBuffer initial ! 20) (rowTimeMs 100 20)
       \<notin> set (tableBody (voltageBuffer initial) 100 21 0 20)"
proof -
  have "pauseAfter (sampleCount (initial\<lparr>sampleCount := 21\<rparr>)) 19"
    by (simp add: pauseAfter_def cmod_pos)
  moreover have "\<forall>j'. 0 \<le> j' \<and> j' < 19 \<and> pauseAfter (sampleCount (initial\<lparr>sampleCount := 21\<rparr>)) j'
      \<longrightarrow> (\<exists>k. pageAvail quiet (nat j') k)"
    by (simp add: no_pause_before_20)
  ultimately have "printData quiet (initial\<lparr>sampleCount := 21\<rparr>)
     = Blocked (initial\<lparr>sampleCount := 21,
         serialOut := [PrintingSamples 21, TableHeader, TableRule]
           @ tableBody (voltageBuffer initial) 100 21 0 20\<rparr>)"
    using printData_blocks [of 19 "initial\<lparr>sampleCount := 21\<rparr>" quiet]
    by simp
  moreover have "Row 20 (voltageBuffer initial ! 20) (rowTimeMs 100 20)
       \<notin> set (tableBody (voltageBuffer initial) 100 21 0 20)"
    by (auto simp: tableBody_def)
  ultimately show ?thesis by blast
qed

subsection \<open>The durations a replay reports\<close>

text \<open>
  C6, as the code has it. A replay of a non-empty buffer, whether it runs to the end or is
  stopped by a key, prints one line with the expected and the measured duration. The
  measured duration \<open>replaySec\<close> is the milliseconds between the two clock readings
  divided by 1000, stored in a \<open>float\<close>. The expected duration \<open>expectedSec\<close> is
  \<open>recordingEndTime - recordingStartTime\<close> in seconds, stored in a \<open>float\<close>, when
  \<open>recordingEndTime > recordingStartTime\<close>, and otherwise the \<open>float\<close> quotient
  \<open>sampleCount / sampleRate\<close>. The error line is the last line of the replay exactly when
  the \<open>float\<close> difference of the two durations exceeds, in absolute value, the
  \<open>double\<close> product \<open>0.2 * expectedSec\<close>; the replay prints it nowhere else.

  With \<open>r\<close> and \<open>X\<close> the exact measured and expected durations in seconds, and the
  occupancy and the rate within their bounds, that test holds whenever \<open>\<bar>r - X\<bar>\<close>
  exceeds \<open>X / 5\<close> by more than \<open>(r + X) / 2 ^ 21 + 1 / 2 ^ 100\<close>, and fails whenever
  \<open>\<bar>r - X\<bar>\<close> is below \<open>X / 5\<close> by more than that; closer to 20 % the rounding decides.
\<close>

theorem replay_reports_durations:
  assumes "sampleCount s \<noteq> 0"
    and "replaySec = f32 (f64 (real (unat (millisReplayEnd e - millisCmd e)) / 1000))"
    and "expectedSec =
      (if recordingStartTime s < recordingEndTime s
       then f32 (f64 (real (unat (recordingEndTime s - recordingStartTime s)) / 1000))
       else f32 (f32 (of_int (sampleCount s)) / f32 (of_int (sampleRate s))))"
    and "r = real (unat (millisReplayEnd e - millisCmd e)) / 1000"
    and "X = (if recordingStartTime s < recordingEndTime s
              then real (unat (recordingEndTime s - recordingStartTime s)) / 1000
              else of_int (sampleCount s) / of_int (sampleRate s))"
  shows "(\<exists>ms. serialOut (replayVoltages e s) =
           serialOut s @ ms @ [Durations expectedSec replaySec]
             @ (if 200 < sampleRate s then [ReplayRateWarning] else [])
             @ (if f64 (f64 (1 / 5) * expectedSec) < \<bar>f32 (replaySec - expectedSec)\<bar>
                then [ExceededStableRate] else [])
         \<and> ExceededStableRate \<notin> set ms \<and> (\<forall>a b. Durations a b \<notin> set ms))
       \<and> (0 \<le> sampleCount s \<and> sampleCount s \<le> MAX_SAMPLES
            \<and> 1 \<le> sampleRate s \<and> sampleRate s \<le> 10000 \<longrightarrow>
            (X / 5 + ((r + X) / 2 ^ 21 + 1 / 2 ^ 100) < \<bar>r - X\<bar> \<longrightarrow>
               f64 (f64 (1 / 5) * expectedSec) < \<bar>f32 (replaySec - expectedSec)\<bar>)
          \<and> (\<bar>r - X\<bar> < X / 5 - ((r + X) / 2 ^ 21 + 1 / 2 ^ 100) \<longrightarrow>
               \<not> f64 (f64 (1 / 5) * expectedSec) < \<bar>f32 (replaySec - expectedSec)\<bar>))"
proof -
  have ex: "expectedSec = expectedDuration s"
    by (simp add: assms(3) expectedDuration_def)
  have first: "\<exists>ms. serialOut (replayVoltages e s) =
           serialOut s @ ms @ [Durations expectedSec replaySec]
             @ (if 200 < sampleRate s then [ReplayRateWarning] else [])
             @ (if f64 (f64 (1 / 5) * expectedSec) < \<bar>f32 (replaySec - expectedSec)\<bar>
                then [ExceededStableRate] else [])
         \<and> ExceededStableRate \<notin> set ms \<and> (\<forall>a b. Durations a b \<notin> set ms)"
    using replayVoltages_report [OF assms(1,2)] by (simp add: ex)
  have r0: "0 \<le> r" unfolding assms(4) by (rule millis_seconds_nonneg)
  have R: "0 \<le> replaySec" "\<bar>replaySec - r\<bar> \<le> r / 8388608 + 1 / 2 ^ 148"
    using rounded_duration [OF r0] by (simp_all add: assms(2,4))
  have second: "(X / 5 + ((r + X) / 2 ^ 21 + 1 / 2 ^ 100) < \<bar>r - X\<bar> \<longrightarrow>
               f64 (f64 (1 / 5) * expectedSec) < \<bar>f32 (replaySec - expectedSec)\<bar>)
          \<and> (\<bar>r - X\<bar> < X / 5 - ((r + X) / 2 ^ 21 + 1 / 2 ^ 100) \<longrightarrow>
               \<not> f64 (f64 (1 / 5) * expectedSec) < \<bar>f32 (replaySec - expectedSec)\<bar>)"
    if b: "0 \<le> sampleCount s" "sampleCount s \<le> MAX_SAMPLES"
      "1 \<le> sampleRate s" "sampleRate s \<le> 10000"
  proof -
    note E = expectedDuration_error [OF b assms(5), folded ex]
    from discrepancy_test_tolerance [OF r0 E(1) R(1) E(2) R(2) E(3)]
    show ?thesis by blast
  qed
  from first second show ?thesis by blast
qed

theorem replay_reports_durations_witness:
  "(\<exists>ms. serialOut (replayVoltages (quiet\<lparr>millisReplayEnd := 1500\<rparr>)
            (initial\<lparr>sampleCount := 1, recordingEndTime := 1000\<rparr>))
          = ms @ [Durations 1 (3 / 2), ExceededStableRate]
        \<and> ExceededStableRate \<notin> set ms)
   \<and> (\<exists>ms. serialOut (replayVoltages (quiet\<lparr>millisReplayEnd := 1000\<rparr>)
            (initial\<lparr>sampleCount := 100\<rparr>))
          = ms @ [Durations 1 1]
        \<and> ExceededStableRate \<notin> set ms)
   \<and> f64 (f64 (1 / 5) * 1) < \<bar>f32 (3 / 2 - 1)\<bar>
   \<and> \<not> f64 (f64 (1 / 5) * 1) < \<bar>f32 (1 - 1)\<bar>"
proof -
  let ?S1 = "initial\<lparr>sampleCount := 1, recordingEndTime := 1000\<rparr>"
  let ?E1 = "quiet\<lparr>millisReplayEnd := 1500\<rparr>"
  let ?S2 = "initial\<lparr>sampleCount := 100\<rparr>"
  let ?E2 = "quiet\<lparr>millisReplayEnd := 1000\<rparr>"
  have a1: "sampleCount ?S1 \<noteq> 0"
    and a2: "3 / 2 = f32 (f64 (real (unat (millisReplayEnd ?E1 - millisCmd ?E1)) / 1000))"
    and a3: "1 = (if recordingStartTime ?S1 < recordingEndTime ?S1
       then f32 (f64 (real (unat (recordingEndTime ?S1 - recordingStartTime ?S1)) / 1000))
       else f32 (f32 (of_int (sampleCount ?S1)) / f32 (of_int (sampleRate ?S1))))"
    and a4: "3 / 2 = real (unat (millisReplayEnd ?E1 - millisCmd ?E1)) / 1000"
    and a5: "1 = (if recordingStartTime ?S1 < recordingEndTime ?S1
              then real (unat (recordingEndTime ?S1 - recordingStartTime ?S1)) / 1000
              else of_int (sampleCount ?S1) / of_int (sampleRate ?S1))"
    by (simp_all add: duration_values)
  note t1 = replay_reports_durations [OF a1 a2 a3 a4 a5]
  have b1: "sampleCount ?S2 \<noteq> 0"
    and b2: "1 = f32 (f64 (real (unat (millisReplayEnd ?E2 - millisCmd ?E2)) / 1000))"
    and b3: "1 = (if recordingStartTime ?S2 < recordingEndTime ?S2
       then f32 (f64 (real (unat (recordingEndTime ?S2 - recordingStartTime ?S2)) / 1000))
       else f32 (f32 (of_int (sampleCount ?S2)) / f32 (of_int (sampleRate ?S2))))"
    and b4: "1 = real (unat (millisReplayEnd ?E2 - millisCmd ?E2)) / 1000"
    and b5: "1 = (if recordingStartTime ?S2 < recordingEndTime ?S2
              then real (unat (recordingEndTime ?S2 - recordingStartTime ?S2)) / 1000
              else of_int (sampleCount ?S2) / of_int (sampleRate ?S2))"
    by (simp_all add: duration_values)
  note t2 = replay_reports_durations [OF b1 b2 b3 b4 b5]
  have c1: "0 \<le> sampleCount ?S1 \<and> sampleCount ?S1 \<le> MAX_SAMPLES
      \<and> 1 \<le> sampleRate ?S1 \<and> sampleRate ?S1 \<le> 10000"
    and c2: "0 \<le> sampleCount ?S2 \<and> sampleCount ?S2 \<le> MAX_SAMPLES
      \<and> 1 \<le> sampleRate ?S2 \<and> sampleRate ?S2 \<le> 10000"
    by (simp_all add: MAX_SAMPLES_def)
  have h1: "(1 :: real) / 5 + ((3 / 2 + 1) / 2 ^ 21 + 1 / 2 ^ 100) < \<bar>3 / 2 - 1\<bar>"
    by simp
  have h2: "\<bar>1 - 1 :: real\<bar> < 1 / 5 - ((1 + 1) / 2 ^ 21 + 1 / 2 ^ 100)"
    by simp
  have p3: "f64 (f64 (1 / 5) * 1) < \<bar>f32 (3 / 2 - 1)\<bar>"
    using t1 [THEN conjunct2, THEN mp, OF c1, THEN conjunct1, THEN mp, OF h1] .
  have p4: "\<not> f64 (f64 (1 / 5) * 1) < \<bar>f32 (1 - 1)\<bar>"
    using t2 [THEN conjunct2, THEN mp, OF c2, THEN conjunct2, THEN mp, OF h2] .
  have p1: "(\<exists>ms. serialOut (replayVoltages ?E1 ?S1)
          = ms @ [Durations 1 (3 / 2), ExceededStableRate]
        \<and> ExceededStableRate \<notin> set ms)"
    using t1 [THEN conjunct1] p3 by (simp del: abs_divide add: duration_values) blast
  have p2: "(\<exists>ms. serialOut (replayVoltages ?E2 ?S2)
          = ms @ [Durations 1 1]
        \<and> ExceededStableRate \<notin> set ms)"
    using t2 [THEN conjunct1] p4 by (simp add: duration_values) blast
  from p1 p2 p3 p4 show ?thesis by blast
qed

text \<open>
  The comparison is made on rounded values: a replay of 1200 ms against a recording of
  1000 ms differs by exactly 20 % of the expected duration, which does not exceed 20 %,
  and the error line is printed (1.2 is stored as 1.2000000477 and 0.2 as a \<open>double\<close>).
\<close>

theorem replay_flags_exactly_20_percent:
  "ExceededStableRate \<in> set (serialOut (replayVoltages (quiet\<lparr>millisReplayEnd := 1200\<rparr>)
            (initial\<lparr>sampleCount := 1, recordingEndTime := 1000\<rparr>)))
   \<and> serialOut (initial\<lparr>sampleCount := 1, recordingEndTime := 1000\<rparr>) = []
   \<and> \<not> (20 / 100 * (real (unat (1000 - 0 :: u32)) / 1000)
         < \<bar>real (unat (1200 - 0 :: u32)) / 1000 - real (unat (1000 - 0 :: u32)) / 1000\<bar>)"
proof -
  have "\<exists>ms. serialOut (replayVoltages (quiet\<lparr>millisReplayEnd := 1200\<rparr>)
            (initial\<lparr>sampleCount := 1, recordingEndTime := 1000\<rparr>))
          = ms @ [Durations 1 (5033165 / 4194304), ExceededStableRate]"
    using replayVoltages_report [of "initial\<lparr>sampleCount := 1, recordingEndTime := 1000\<rparr>"
        "5033165 / 4194304" "quiet\<lparr>millisReplayEnd := 1200\<rparr>"]
    by (simp add: expectedDuration_def duration_values) blast
  then show ?thesis by auto
qed

end
